theory Spec2Isabelle
  imports Main
begin

section \<open>Data model of logger.h\<close>

text \<open>
  The enumeration \<open>LoggerStream::Level\<close>. Its enumerators carry the values 0 to 4 in the
  order of declaration; \<open>level_num\<close> is that value, and the comparison \<open>>=\<close> of the
  constructor is the comparison of these values.
\<close>

datatype Level = Debug | Info | Warning | Error | Fatal

fun level_num :: "Level \<Rightarrow> nat" where
  "level_num Debug = 0"
| "level_num Info = 1"
| "level_num Warning = 2"
| "level_num Error = 3"
| "level_num Fatal = 4"

text \<open>The private struct \<open>LoggerStream::Stream\<close>: the message buffer.\<close>

record Stream =
  str :: string
  level :: Level
  space :: bool
  quote :: bool

text \<open>
  \<open>std::make_shared<Stream>()\<close> value-initialises the struct: an empty string, the
  enumerator of value 0 and two false flags.
\<close>

definition Stream0 :: Stream where
  "Stream0 = \<lparr>str = [], level = Debug, space = False, quote = False\<rparr>"

type_synonym addr = nat
type_synonym tid = nat
type_synonym OutputHandler = nat

text \<open>
  A \<open>FILE *\<close> is either \<open>stderr\<close> or a handle that \<open>fopen\<close> returned. Every effect of the
  program on the outside is recorded, in order, as an event of the trace.
\<close>

datatype FILE = Stderr | File nat

datatype event =
    Call OutputHandler Level string
  | Fprintf FILE string
  | Fflush FILE
  | Fclose FILE

text \<open>
  The state of the process: the static variables of logger.cpp, the thread-local pools
  (one deque of shared pointers for each thread), and the store of the buffers the shared
  pointers refer to, with the use count of each control block.
\<close>

record state =
  outputHandler :: "OutputHandler option"
  severityLevel :: Level
  outputStream :: FILE
  messagePrefix :: string
  applicationPrefix :: string
  logFileName :: string
  pool :: "tid \<Rightarrow> addr list"
  heap :: "addr \<Rightarrow> Stream"
  use_count :: "addr \<Rightarrow> nat"
  next_addr :: addr
  trace :: "event list"

text \<open>The static initialisers of logger.cpp.\<close>

definition init_state :: state where
  "init_state =
     \<lparr>outputHandler = None, severityLevel = Debug, outputStream = Stderr,
      messagePrefix = [], applicationPrefix = [], logFileName = [],
      pool = (\<lambda>_. []), heap = (\<lambda>_. Stream0), use_count = (\<lambda>_. 0),
      next_addr = 0, trace = []\<rparr>"

text \<open>A call either returns or ends in \<open>abort()\<close>; both carry the state reached.\<close>

datatype 'a outcome = Returned 'a | Aborted 'a

fun final :: "'a outcome \<Rightarrow> 'a" where
  "final (Returned s) = s"
| "final (Aborted s) = s"

fun aborted :: "'a outcome \<Rightarrow> bool" where
  "aborted (Returned s) = False"
| "aborted (Aborted s) = True"

section \<open>C strings and printf\<close>

text \<open>
  A \<open>std::string\<close> may hold any character; \<open>c_str()\<close> read as a C string ends at the
  first NUL character.
\<close>

definition NUL :: char where
  "NUL = CHR 0x00"

definition c_str :: "string \<Rightarrow> string" where
  "c_str s = takeWhile (\<lambda>c. c \<noteq> NUL) s"

definition digit_char :: "nat \<Rightarrow> char" where
  "digit_char d = ''0123456789'' ! (d mod 10)"

fun digits :: "nat \<Rightarrow> string" where
  "digits n = (if n < 10 then [digit_char n] else digits (n div 10) @ [digit_char (n mod 10)])"

declare digits.simps [simp del]

text \<open>The conversion \<open>%d\<close>.\<close>

definition printf_d :: "int \<Rightarrow> string" where
  "printf_d v = (if v < 0 then ''-'' @ digits (nat (- v)) else digits (nat v))"

text \<open>The conversion \<open>%0wd\<close>: zeros between the sign and the digits up to the width \<open>w\<close>.\<close>

definition printf_0d :: "nat \<Rightarrow> int \<Rightarrow> string" where
  "printf_0d w v =
     (let sign = (if v < 0 then ''-'' else []);
          ds = digits (nat \<bar>v\<bar>)
      in sign @ replicate (w - length sign - length ds) CHR ''0'' @ ds)"

text \<open>The division of C on \<open>int\<close>, which truncates towards zero.\<close>

definition c_div :: "int \<Rightarrow> int \<Rightarrow> int" where
  "c_div a b = sgn a * sgn b * (\<bar>a\<bar> div \<bar>b\<bar>)"

text \<open>
  \<open>snprintf(buf, n, ...)\<close> on the array \<open>buf\<close>, where \<open>s\<close> is the whole formatted text:
  nothing is written when \<open>n\<close> is 0, otherwise the first \<open>n - 1\<close> characters of \<open>s\<close> and a
  NUL after them. The rest of the array keeps what it held.
\<close>

definition snprintf :: "char list \<Rightarrow> nat \<Rightarrow> string \<Rightarrow> char list" where
  "snprintf buf n s =
     (if n = 0 then buf
      else (let k = min (length s) (n - 1) in take k s @ [NUL] @ drop (k + 1) buf))"

section \<open>The header of a message\<close>

text \<open>The fields of \<open>struct tm\<close> that the constructor reads.\<close>

record tm =
  tm_mday :: int
  tm_mon :: int
  tm_year :: int
  tm_hour :: int
  tm_min :: int
  tm_sec :: int

text \<open>
  What a constructor call reads from its environment: the local time and the microseconds
  of \<open>gettimeofday\<close>, the process id, and the bytes the uninitialised array \<open>header\<close>
  happens to hold. The numbers are the values of the C variables; on the readings that
  \<open>localtime_r\<close> and \<open>gettimeofday\<close> deliver neither the additions of the constructor
  nor its cast to \<open>int\<close> leave the range of \<open>int\<close>.
\<close>

record env =
  local_tm :: tm
  tv_usec :: int
  pid :: int
  stack :: "nat \<Rightarrow> char"

fun logLevelToChar :: "Level \<Rightarrow> char" where
  "logLevelToChar Debug = CHR ''D''"
| "logLevelToChar Info = CHR ''I''"
| "logLevelToChar Warning = CHR ''W''"
| "logLevelToChar Error = CHR ''E''"
| "logLevelToChar Fatal = CHR ''E''"

text \<open>
  The text that the format
  \<open>%s%02d.%02d.%d %02d:%02d:%02d.%03d %c [%d] %s: \<close> produces from the arguments of the
  \<open>snprintf\<close> call of the constructor, before any bound is applied.
\<close>

definition header_text :: "state \<Rightarrow> env \<Rightarrow> Level \<Rightarrow> string" where
  "header_text st e lvl =
     c_str (applicationPrefix st)
     @ printf_0d 2 (tm_mday (local_tm e)) @ ''.''
     @ printf_0d 2 (tm_mon (local_tm e) + 1) @ ''.''
     @ printf_d (tm_year (local_tm e) + 1900) @ '' ''
     @ printf_0d 2 (tm_hour (local_tm e)) @ '':''
     @ printf_0d 2 (tm_min (local_tm e)) @ '':''
     @ printf_0d 2 (tm_sec (local_tm e)) @ ''.''
     @ printf_0d 3 (c_div (tv_usec e) 1000) @ '' ''
     @ [logLevelToChar lvl] @ '' [''
     @ printf_d (pid e) @ ''] ''
     @ c_str (messagePrefix st) @ '': ''"

text \<open>
  The array \<open>char header[128]\<close> after \<open>snprintf(header, sizeof(header) - 1, ...)\<close> and
  \<open>header[sizeof(header) - 1] = 0\<close>.
\<close>

definition header_array :: "state \<Rightarrow> env \<Rightarrow> Level \<Rightarrow> char list" where
  "header_array st e lvl =
     (let header = map (stack e) [0..<128];
          header = snprintf header (128 - 1) (header_text st e lvl)
      in header[128 - 1 := NUL])"

section \<open>The pool and the stream handles\<close>

definition getFromPool :: "tid \<Rightarrow> state \<Rightarrow> addr \<times> state" where
  "getFromPool t st =
     (if pool st t = [] then
        (let a = next_addr st
         in (a, st\<lparr>heap := (heap st)(a := Stream0),
                    use_count := (use_count st)(a := 1),
                    next_addr := a + 1\<rparr>))
      else (last (pool st t), st\<lparr>pool := (pool st)(t := butlast (pool st t))\<rparr>))"

definition pushToPool :: "tid \<Rightarrow> addr \<Rightarrow> state \<Rightarrow> state" where
  "pushToPool t a st = st\<lparr>pool := (pool st)(t := pool st t @ [a])\<rparr>"

text \<open>
  A \<open>LoggerStream\<close> is its only member, the shared pointer \<open>stream\<close>: \<open>None\<close> is the empty
  pointer, \<open>Some a\<close> points to the buffer at \<open>a\<close>. The constructor runs on thread \<open>t\<close>.
\<close>

definition LoggerStream_ctor :: "env \<Rightarrow> tid \<Rightarrow> Level \<Rightarrow> state \<Rightarrow> addr option \<times> state" where
  "LoggerStream_ctor e t lvl st =
     (let currentSeverityLevel = severityLevel st in
      if level_num lvl \<ge> level_num currentSeverityLevel then
        (let (a, st1) = getFromPool t st;
             b = (heap st1 a)\<lparr>str := [], level := lvl, space := True, quote := False\<rparr>;
             header = header_array st1 e lvl;
             b = b\<lparr>str := str b @ c_str header\<rparr>
         in (Some a, st1\<lparr>heap := (heap st1)(a := b)\<rparr>))
      else (None, st))"

text \<open>The defaulted copy constructor copies the shared pointer.\<close>

definition LoggerStream_copy :: "addr option \<Rightarrow> state \<Rightarrow> addr option \<times> state" where
  "LoggerStream_copy h st =
     (case h of
        None \<Rightarrow> (None, st)
      | Some a \<Rightarrow> (Some a, st\<lparr>use_count := (use_count st)(a := use_count st a + 1)\<rparr>))"

text \<open>
  The class declares no assignment operator, so it has the implicitly declared copy
  assignment, which assigns the shared pointer: the count of the buffer assigned from goes
  up, the count of the buffer the object held goes down, and at 0 that buffer is freed.
  No function of the logger is called.
\<close>

definition LoggerStream_assign :: "addr option \<Rightarrow> addr option \<Rightarrow> state \<Rightarrow> addr option \<times> state" where
  "LoggerStream_assign this other st =
     (let st1 = (case other of
                   None \<Rightarrow> st
                 | Some b \<Rightarrow> st\<lparr>use_count := (use_count st)(b := use_count st b + 1)\<rparr>);
          st2 = (case this of
                   None \<Rightarrow> st1
                 | Some a \<Rightarrow> st1\<lparr>use_count := (use_count st1)(a := use_count st1 a - 1)\<rparr>)
      in (other, st2))"

definition logHandler :: "Level \<Rightarrow> string \<Rightarrow> state \<Rightarrow> state outcome" where
  "logHandler lvl s st =
     (let st1 =
        (case outputHandler st of
           Some handler \<Rightarrow> st\<lparr>trace := trace st @ [Call handler lvl s]\<rparr>
         | None \<Rightarrow>
             (let stream = outputStream st
              in st\<lparr>trace := trace st @ [Fprintf stream (s @ [CHR 0x0A]), Fflush stream]\<rparr>))
      in if lvl = Fatal then Aborted st1 else Returned st1)"

text \<open>
  The destructor, run on thread \<open>t\<close>. \<open>unique()\<close> is \<open>use_count() == 1\<close>, false for the
  empty pointer. Where the pointer is not moved into the pool, the destruction of the
  member releases its count.
\<close>

definition LoggerStream_dtor :: "tid \<Rightarrow> addr option \<Rightarrow> state \<Rightarrow> state outcome" where
  "LoggerStream_dtor t h st =
     (case h of
        None \<Rightarrow> Returned st
      | Some a \<Rightarrow>
          if use_count st a = 1 then
            (case logHandler (level (heap st a)) (c_str (str (heap st a))) st of
               Aborted st1 \<Rightarrow> Aborted st1
             | Returned st1 \<Rightarrow> Returned (pushToPool t a st1))
          else Returned (st\<lparr>use_count := (use_count st)(a := use_count st a - 1)\<rparr>))"

section \<open>The chained operations\<close>

definition LoggerStream_space :: "addr option \<Rightarrow> state \<Rightarrow> state" where
  "LoggerStream_space h st =
     (case h of None \<Rightarrow> st
      | Some a \<Rightarrow> st\<lparr>heap := (heap st)(a := (heap st a)\<lparr>space := True\<rparr>)\<rparr>)"

definition LoggerStream_nospace :: "addr option \<Rightarrow> state \<Rightarrow> state" where
  "LoggerStream_nospace h st =
     (case h of None \<Rightarrow> st
      | Some a \<Rightarrow> st\<lparr>heap := (heap st)(a := (heap st a)\<lparr>space := False\<rparr>)\<rparr>)"

definition LoggerStream_quote :: "addr option \<Rightarrow> state \<Rightarrow> state" where
  "LoggerStream_quote h st =
     (case h of None \<Rightarrow> st
      | Some a \<Rightarrow> st\<lparr>heap := (heap st)(a := (heap st a)\<lparr>quote := True\<rparr>)\<rparr>)"

definition LoggerStream_noquote :: "addr option \<Rightarrow> state \<Rightarrow> state" where
  "LoggerStream_noquote h st =
     (case h of None \<Rightarrow> st
      | Some a \<Rightarrow> st\<lparr>heap := (heap st)(a := (heap st a)\<lparr>quote := False\<rparr>)\<rparr>)"

text \<open>
  \<open>addLogMessage\<close> on the buffer at \<open>a\<close>, with the text \<open>s\<close> that \<open>+=\<close> appends. The
  statements run in the order of the source, each on the buffer the one before left.
\<close>

definition addLogMessage :: "addr \<Rightarrow> string \<Rightarrow> state \<Rightarrow> state" where
  "addLogMessage a s st =
     (let b = heap st a;
          b = (if space b then b\<lparr>str := str b @ [CHR '' '']\<rparr> else b);
          b = (if quote b then b\<lparr>str := str b @ [CHR 0x22]\<rparr> else b);
          b = b\<lparr>str := str b @ s\<rparr>;
          b = (if quote b then b\<lparr>str := str b @ [CHR 0x22]\<rparr> else b)
      in st\<lparr>heap := (heap st)(a := b)\<rparr>)"

text \<open>
  The overloads of \<open>operator <<\<close>: a \<open>const char *\<close> or \<open>char *\<close> (the characters up to
  the terminator are appended), a \<open>std::string\<close>, a \<open>char\<close>, and the template, here at
  type \<open>int\<close>, where \<open>std::to_string\<close> prints as \<open>%d\<close> does.
\<close>

definition shl_cstr :: "addr option \<Rightarrow> string \<Rightarrow> state \<Rightarrow> state" where
  "shl_cstr h s st = (case h of None \<Rightarrow> st | Some a \<Rightarrow> addLogMessage a (c_str s) st)"

definition shl_string :: "addr option \<Rightarrow> string \<Rightarrow> state \<Rightarrow> state" where
  "shl_string h s st = (case h of None \<Rightarrow> st | Some a \<Rightarrow> addLogMessage a s st)"

definition shl_char :: "addr option \<Rightarrow> char \<Rightarrow> state \<Rightarrow> state" where
  "shl_char h c st = (case h of None \<Rightarrow> st | Some a \<Rightarrow> addLogMessage a [c] st)"

definition shl_int :: "addr option \<Rightarrow> int \<Rightarrow> state \<Rightarrow> state" where
  "shl_int h n st = (case h of None \<Rightarrow> st | Some a \<Rightarrow> addLogMessage a (printf_d n) st)"

section \<open>Configuration\<close>

definition setOutputHandler :: "OutputHandler option \<Rightarrow> state \<Rightarrow> state" where
  "setOutputHandler handler st = st\<lparr>outputHandler := handler\<rparr>"

definition setSeverityLevel :: "Level \<Rightarrow> state \<Rightarrow> state" where
  "setSeverityLevel lvl st = st\<lparr>severityLevel := lvl\<rparr>"

definition setSeverityLevel_name :: "string \<Rightarrow> state \<Rightarrow> state" where
  "setSeverityLevel_name name st =
     (let severity = Info;
          severity =
            (if name = ''debug'' then Debug
             else if name = ''info'' then Info
             else if name = ''warning'' then Warning
             else if name = ''error'' then Error
             else severity)
      in setSeverityLevel severity st)"

definition setApplicationPrefix :: "string \<Rightarrow> state \<Rightarrow> state" where
  "setApplicationPrefix prefix st =
     (let prefix = (if prefix \<noteq> [] then prefix @ [CHR '' ''] else prefix)
      in st\<lparr>applicationPrefix := prefix\<rparr>)"

definition setMessagePrefix :: "string \<Rightarrow> state \<Rightarrow> state" where
  "setMessagePrefix prefix st = st\<lparr>messagePrefix := prefix\<rparr>"

text \<open>
  \<open>fopen\<close> belongs to the environment: given a path and a mode it returns a new handle
  (\<open>Inr\<close>), or fails (\<open>Inl\<close>) with the text that \<open>strerror(errno)\<close> then gives.
\<close>

type_synonym fopen_fun = "string \<Rightarrow> string \<Rightarrow> string + FILE"

definition rotateFile :: "fopen_fun \<Rightarrow> state \<Rightarrow> state" where
  "rotateFile fopen st =
     (let fileName = logFileName st in
      if fileName \<noteq> [] then
        (case fopen (c_str fileName) ''a'' of
           Inl err \<Rightarrow>
             (let message = ''cannot open log file '' @ [CHR 0x27] @ logFileName st @ [CHR 0x27]
              in st\<lparr>trace := trace st @ [Fprintf Stderr (c_str message @ '': '' @ err @ [CHR 0x0A])]\<rparr>)
         | Inr newFile \<Rightarrow>
             (let previousFile = outputStream st;
                  st1 = st\<lparr>outputStream := newFile\<rparr>
              in if previousFile \<noteq> Stderr then st1\<lparr>trace := trace st1 @ [Fclose previousFile]\<rparr>
                 else st1))
      else st)"

definition setLogFileName :: "fopen_fun \<Rightarrow> string \<Rightarrow> state \<Rightarrow> state" where
  "setLogFileName fopen fileName st = rotateFile fopen (st\<lparr>logFileName := fileName\<rparr>)"

section \<open>Runs of client code\<close>

text \<open>
  The reading of the example in the documentation comment of logger.h
  (\<open>03.08.2017 12:44:15.737 I [26629]\<close>), with an array \<open>header\<close> full of \<open>#\<close>.
\<close>

definition doc_env :: env where
  "doc_env =
     \<lparr>local_tm = \<lparr>tm_mday = 3, tm_mon = 7, tm_year = 117,
                   tm_hour = 12, tm_min = 44, tm_sec = 15\<rparr>,
      tv_usec = 737123, pid = 26629, stack = (\<lambda>_. CHR ''#'')\<rparr>"

text \<open>A file system in which exactly one path can be opened, and only for append.\<close>

definition one_file :: fopen_fun where
  "one_file path mode =
     (if path = ''/var/log/app.log'' \<and> mode = ''a'' then Inr (File 1)
      else Inl ''No such file or directory'')"

text \<open>
  The state right after the first stream of the process has been constructed, on thread
  0, at level \<open>lvl\<close> and with the reading of the documentation comment.
\<close>

definition first_stream :: "Level \<Rightarrow> state" where
  "first_stream lvl = snd (LoggerStream_ctor doc_env 0 lvl init_state)"

text \<open>
  The state after the client code
  \<open>{ logWarning().nospace().quote() << "x"; }\<close> has run on thread 0 as the first message
  of the process: the buffer is back in the pool with what the message left in it.
\<close>

definition after_first_message :: state where
  "after_first_message =
     final (LoggerStream_dtor 0 (Some 0)
       (shl_cstr (Some 0) ''x''
         (LoggerStream_quote (Some 0)
           (LoggerStream_nospace (Some 0) (first_stream Warning)))))"

text \<open>The initial state with a message prefix of 120 characters set.\<close>

definition long_prefix_state :: state where
  "long_prefix_state = setMessagePrefix (replicate 120 CHR ''m'') init_state"

section \<open>Programs that use the logger\<close>

text \<open>
  The chained calls of a stream and the static configuration calls, as values, so that a
  program can be given as a list of calls.
\<close>

datatype chain_op =
    Space | Nospace | Quote | Noquote
  | ShlCstr string | ShlString string | ShlChar char | ShlInt int

fun chain :: "chain_op \<Rightarrow> addr option \<Rightarrow> state \<Rightarrow> state" where
  "chain Space h st = LoggerStream_space h st"
| "chain Nospace h st = LoggerStream_nospace h st"
| "chain Quote h st = LoggerStream_quote h st"
| "chain Noquote h st = LoggerStream_noquote h st"
| "chain (ShlCstr s) h st = shl_cstr h s st"
| "chain (ShlString s) h st = shl_string h s st"
| "chain (ShlChar c) h st = shl_char h c st"
| "chain (ShlInt n) h st = shl_int h n st"

datatype config_op =
    SetOutputHandler "OutputHandler option"
  | SetSeverityLevel Level
  | SetSeverityLevelName string
  | SetApplicationPrefix string
  | SetMessagePrefix string
  | SetLogFileName fopen_fun string
  | RotateFile fopen_fun

fun configure :: "config_op \<Rightarrow> state \<Rightarrow> state" where
  "configure (SetOutputHandler h) st = setOutputHandler h st"
| "configure (SetSeverityLevel l) st = setSeverityLevel l st"
| "configure (SetSeverityLevelName n) st = setSeverityLevel_name n st"
| "configure (SetApplicationPrefix p) st = setApplicationPrefix p st"
| "configure (SetMessagePrefix p) st = setMessagePrefix p st"
| "configure (SetLogFileName fopen n) st = setLogFileName fopen n st"
| "configure (RotateFile fopen) st = rotateFile fopen st"

text \<open>
  A program in execution: the state of the logger, the \<open>LoggerStream\<close> objects that are
  alive (each one is its shared pointer), and the number of active streams constructed so
  far.
\<close>

record client =
  logger :: state
  handles :: "addr option list"
  started :: nat

definition init_client :: client where
  "init_client = \<lparr>logger = init_state, handles = [], started = 0\<rparr>"

text \<open>
  What a program does with the logger, one call at a time: it constructs a stream on a
  thread (the new object is added at the end), copy-constructs from the object at an
  index, destroys the object at an index on a thread (the object is gone afterwards; an
  \<open>abort()\<close> ends the program), makes a chained call on an object, or makes a
  configuration call. An index with no object behind it does nothing. No call assigns one
  stream to another.
\<close>

datatype action =
    Construct env tid Level
  | CopyConstruct nat
  | Destroy tid nat
  | Chain nat chain_op
  | Configure config_op

definition remove_nth :: "nat \<Rightarrow> 'a list \<Rightarrow> 'a list" where
  "remove_nth i xs = take i xs @ drop (Suc i) xs"

fun step :: "action \<Rightarrow> client \<Rightarrow> client outcome" where
  "step (Construct e t lvl) c =
     (let (h, st) = LoggerStream_ctor e t lvl (logger c)
      in Returned (c\<lparr>logger := st, handles := handles c @ [h],
                      started := (if h = None then started c else started c + 1)\<rparr>))"
| "step (CopyConstruct i) c =
     (if i < length (handles c) then
        (let (h, st) = LoggerStream_copy (handles c ! i) (logger c)
         in Returned (c\<lparr>logger := st, handles := handles c @ [h]\<rparr>))
      else Returned c)"
| "step (Destroy t i) c =
     (if i < length (handles c) then
        (case LoggerStream_dtor t (handles c ! i) (logger c) of
           Aborted st \<Rightarrow> Aborted (c\<lparr>logger := st\<rparr>)
         | Returned st \<Rightarrow> Returned (c\<lparr>logger := st, handles := remove_nth i (handles c)\<rparr>))
      else Returned c)"
| "step (Chain i op) c =
     (if i < length (handles c) then Returned (c\<lparr>logger := chain op (handles c ! i) (logger c)\<rparr>)
      else Returned c)"
| "step (Configure op) c = Returned (c\<lparr>logger := configure op (logger c)\<rparr>)"

fun exec :: "action list \<Rightarrow> client \<Rightarrow> client outcome" where
  "exec [] c = Returned c"
| "exec (act # acts) c =
     (case step act c of
        Aborted c1 \<Rightarrow> Aborted c1
      | Returned c1 \<Rightarrow> exec acts c1)"

text \<open>
  A dispatch is a call of the handler, or a write together with its flush. Only a dispatch
  flushes (the diagnostic of \<open>rotateFile\<close> is written and not flushed), so the dispatches
  of a trace are its handler calls and its flushes.
\<close>

fun is_dispatch :: "event \<Rightarrow> bool" where
  "is_dispatch (Call handler lvl s) = True"
| "is_dispatch (Fflush f) = True"
| "is_dispatch (Fprintf f s) = False"
| "is_dispatch (Fclose f) = False"

definition dispatch_count :: "event list \<Rightarrow> nat" where
  "dispatch_count tr = length (filter is_dispatch tr)"

text \<open>
  What holds in every state a program can reach: the use count of a buffer is the number
  of objects that point to it, plus one when it sits in a pool; a buffer some object points
  to sits in no pool; no buffer sits in a pool twice; the addresses not yet allocated have
  use count 0; and every active stream constructed so far has either been dispatched or
  still has its buffer held by an object.
\<close>

definition pooled :: "state \<Rightarrow> addr \<Rightarrow> bool" where
  "pooled st a = (\<exists>t. a \<in> set (pool st t))"

definition client_inv :: "client \<Rightarrow> bool" where
  "client_inv c =
     ((\<forall>a. use_count (logger c) a
            = count_list (handles c) (Some a) + (if pooled (logger c) a then 1 else 0))
      \<and> (\<forall>a. Some a \<in> set (handles c) \<longrightarrow> \<not> pooled (logger c) a)
      \<and> (\<forall>t. distinct (pool (logger c) t))
      \<and> (\<forall>t t'. t \<noteq> t' \<longrightarrow> set (pool (logger c) t) \<inter> set (pool (logger c) t') = {})
      \<and> (\<forall>a. next_addr (logger c) \<le> a \<longrightarrow> use_count (logger c) a = 0)
      \<and> dispatch_count (trace (logger c)) + card (set (handles c) - {None}) = started c)"

text \<open>
  The program \<open>{ LoggerStream s(Info); LoggerStream c(s); c << "a"; ... }\<close> on a fresh
  process, before and after \<open>s\<close> has been destroyed on thread 1.
\<close>

definition two_handles :: client where
  "two_handles =
     final (exec [Construct doc_env 0 Info, CopyConstruct 0, Chain 1 (ShlCstr ''a'')] init_client)"

definition one_handle :: client where
  "one_handle =
     final (exec [Construct doc_env 0 Info, CopyConstruct 0, Chain 1 (ShlCstr ''a''),
                  Destroy 1 0] init_client)"

section \<open>The header layout of the specification\<close>

text \<open>
  The layout as the specification words it:
  \<open><appPrefix><DD>.<MM>.<YYYY> <HH>:<MM>:<SS>.<mmm> <LevelChar> [<pid>] <messagePrefix>: \<close>
  with two, three and four decimal digits where the layout shows as many letters.
\<close>

definition two_digits :: "nat \<Rightarrow> string" where
  "two_digits n = [digit_char (n div 10), digit_char (n mod 10)]"

definition three_digits :: "nat \<Rightarrow> string" where
  "three_digits n = [digit_char (n div 100), digit_char (n div 10 mod 10), digit_char (n mod 10)]"

definition four_digits :: "nat \<Rightarrow> string" where
  "four_digits n =
     [digit_char (n div 1000), digit_char (n div 100 mod 10), digit_char (n div 10 mod 10),
      digit_char (n mod 10)]"

definition spec_header ::
  "string \<Rightarrow> nat \<Rightarrow> nat \<Rightarrow> nat \<Rightarrow> nat \<Rightarrow> nat \<Rightarrow> nat \<Rightarrow> nat \<Rightarrow> char \<Rightarrow> nat \<Rightarrow> string \<Rightarrow> string" where
  "spec_header appPrefix day month year hour minute second milli levelChar process msgPrefix =
     appPrefix @ two_digits day @ ''.'' @ two_digits month @ ''.'' @ four_digits year @ '' ''
     @ two_digits hour @ '':'' @ two_digits minute @ '':'' @ two_digits second @ ''.''
     @ three_digits milli @ '' '' @ [levelChar] @ '' ['' @ digits process @ ''] ''
     @ msgPrefix @ '': ''"

text \<open>
  A wall-clock reading as \<open>localtime_r\<close> and \<open>gettimeofday\<close> deliver it, in a year of four
  digits, and a process id as \<open>getpid\<close> delivers it.
\<close>

definition valid_reading :: "env \<Rightarrow> bool" where
  "valid_reading e =
     (1 \<le> tm_mday (local_tm e) \<and> tm_mday (local_tm e) \<le> 31 \<and>
      0 \<le> tm_mon (local_tm e) \<and> tm_mon (local_tm e) \<le> 11 \<and>
      1000 \<le> tm_year (local_tm e) + 1900 \<and> tm_year (local_tm e) + 1900 \<le> 9999 \<and>
      0 \<le> tm_hour (local_tm e) \<and> tm_hour (local_tm e) \<le> 23 \<and>
      0 \<le> tm_min (local_tm e) \<and> tm_min (local_tm e) \<le> 59 \<and>
      0 \<le> tm_sec (local_tm e) \<and> tm_sec (local_tm e) \<le> 60 \<and>
      0 \<le> tv_usec e \<and> tv_usec e \<le> 999999 \<and>
      0 \<le> pid e)"

text \<open>
  The layout filled in for a constructor call: the prefixes of the registry as the C
  strings passed to the format, the calendar fields of the reading (the month counted
  from 1, the year from 0, the milliseconds of the microseconds), the character of the
  level and the process id.
\<close>

definition spec_header_for :: "state \<Rightarrow> env \<Rightarrow> Level \<Rightarrow> string" where
  "spec_header_for st e lvl =
     spec_header (c_str (applicationPrefix st))
       (nat (tm_mday (local_tm e))) (nat (tm_mon (local_tm e) + 1))
       (nat (tm_year (local_tm e) + 1900))
       (nat (tm_hour (local_tm e))) (nat (tm_min (local_tm e))) (nat (tm_sec (local_tm e)))
       (nat (tv_usec e div 1000)) (logLevelToChar lvl) (nat (pid e))
       (c_str (messagePrefix st))"

section \<open>Facts about printf and C strings\<close>

lemma digits_lt10: "n < 10 \<Longrightarrow> digits n = [digit_char n]"
  by (simp add: digits.simps)

lemma digits_ge10: "10 \<le> n \<Longrightarrow> digits n = digits (n div 10) @ [digit_char (n mod 10)]"
  by (subst digits.simps) simp

lemma digit_char_0: "digit_char 0 = CHR ''0''"
  by (simp add: digit_char_def)

lemma digits_two: "10 \<le> n \<Longrightarrow> n < 100 \<Longrightarrow> digits n = two_digits n"
  by (simp add: digits_ge10 digits_lt10 two_digits_def)

lemma digits_three: "100 \<le> n \<Longrightarrow> n < 1000 \<Longrightarrow> digits n = three_digits n"
proof -
  assume a: "100 \<le> n" "n < 1000"
  then have "10 \<le> n div 10" "n div 10 < 100" by auto
  then have "digits (n div 10) = two_digits (n div 10)" by (rule digits_two)
  moreover have "n div 10 div 10 = n div 100" by (simp add: div_mult2_eq [symmetric])
  ultimately show ?thesis using a
    by (simp add: digits_ge10 two_digits_def three_digits_def)
qed

lemma digits_four: "1000 \<le> n \<Longrightarrow> n < 10000 \<Longrightarrow> digits n = four_digits n"
proof -
  assume a: "1000 \<le> n" "n < 10000"
  then have "100 \<le> n div 10" "n div 10 < 1000" by auto
  then have "digits (n div 10) = three_digits (n div 10)" by (rule digits_three)
  moreover have "n div 10 div 100 = n div 1000" "n div 10 div 10 = n div 100"
    by (simp_all add: div_mult2_eq [symmetric])
  ultimately show ?thesis using a
    by (simp add: digits_ge10 three_digits_def four_digits_def)
qed

lemma printf_0d_two: "0 \<le> v \<Longrightarrow> v < 100 \<Longrightarrow> printf_0d 2 v = two_digits (nat v)"
proof (cases "v < 10")
  case True
  assume "0 \<le> v" "v < 100"
  with True show ?thesis
    by (simp add: printf_0d_def digits_lt10 two_digits_def digit_char_0)
next
  case False
  assume "0 \<le> v" "v < 100"
  with False have "digits (nat v) = two_digits (nat v)" by (intro digits_two) auto
  with \<open>0 \<le> v\<close> show ?thesis
    by (simp add: printf_0d_def two_digits_def)
qed

lemma printf_0d_three: "0 \<le> v \<Longrightarrow> v < 1000 \<Longrightarrow> printf_0d 3 v = three_digits (nat v)"
proof -
  assume a: "0 \<le> v" "v < 1000"
  consider "v < 10" | "10 \<le> v" "v < 100" | "100 \<le> v" by linarith
  then show ?thesis
  proof cases
    case 1
    with a show ?thesis
      by (simp add: printf_0d_def digits_lt10 three_digits_def digit_char_0 numeral_3_eq_3)
  next
    case 2
    with a have "digits (nat v) = two_digits (nat v)" by (intro digits_two) auto
    with a 2 show ?thesis
      by (simp add: printf_0d_def two_digits_def three_digits_def digit_char_0)
  next
    case 3
    with a have "digits (nat v) = three_digits (nat v)" by (intro digits_three) auto
    with a show ?thesis
      by (simp add: printf_0d_def three_digits_def)
  qed
qed

lemma printf_d_four: "1000 \<le> v \<Longrightarrow> v < 10000 \<Longrightarrow> printf_d v = four_digits (nat v)"
  by (simp add: printf_d_def digits_four)

lemma printf_d_nat: "0 \<le> v \<Longrightarrow> printf_d v = digits (nat v)"
  by (simp add: printf_d_def)

lemma c_div_nonneg: "0 \<le> a \<Longrightarrow> c_div a 1000 = a div 1000"
  by (cases "a = 0") (simp_all add: c_div_def)

lemma digit_char_not_NUL: "digit_char d \<noteq> NUL"
proof -
  have "digit_char d \<in> set ''0123456789''"
    unfolding digit_char_def by (rule nth_mem) simp
  then show ?thesis by (auto simp: NUL_def)
qed

lemma digits_no_NUL: "NUL \<notin> set (digits n)"
proof (induction n rule: digits.induct)
  case (1 n)
  show ?case
  proof (cases "n < 10")
    case True
    then show ?thesis using digit_char_not_NUL [of n] by (simp add: digits_lt10)
  next
    case False
    with 1 show ?thesis using digit_char_not_NUL [of "n mod 10"] by (simp add: digits_ge10)
  qed
qed

lemma printf_d_no_NUL: "NUL \<notin> set (printf_d v)"
  using digits_no_NUL by (simp add: printf_d_def NUL_def)

lemma printf_0d_no_NUL: "NUL \<notin> set (printf_0d w v)"
  using digits_no_NUL by (auto simp: printf_0d_def NUL_def Let_def)

lemma c_str_no_NUL: "NUL \<notin> set (c_str s)"
  unfolding c_str_def by (auto dest: set_takeWhileD)

lemma c_str_cut: "NUL \<notin> set s \<Longrightarrow> c_str (s @ NUL # r) = s"
  unfolding c_str_def by (induction s) auto

lemma logLevelToChar_not_NUL: "logLevelToChar lvl \<noteq> NUL"
  by (cases lvl) (simp_all add: NUL_def)

lemma header_text_no_NUL: "NUL \<notin> set (header_text st e lvl)"
  using printf_d_no_NUL printf_0d_no_NUL c_str_no_NUL logLevelToChar_not_NUL [of lvl]
  by (auto simp: header_text_def NUL_def)

lemma length_header_array: "length (header_array st e lvl) = 128"
  by (simp add: header_array_def snprintf_def Let_def)

lemma c_str_header_array: "c_str (header_array st e lvl) = take 126 (header_text st e lvl)"
proof -
  let ?s = "header_text st e lvl"
  let ?k = "min (length ?s) 126"
  let ?buf = "map (stack e) [0..<128]"
  have k: "length (take ?k ?s) = ?k" by simp
  have "header_array st e lvl = (take ?k ?s @ NUL # drop (?k + 1) ?buf)[127 := NUL]"
    by (simp add: header_array_def snprintf_def Let_def)
  also have "\<dots> = take ?k ?s @ (NUL # drop (?k + 1) ?buf)[127 - ?k := NUL]"
    by (simp add: list_update_append)
  also have "\<dots> = take ?k ?s @ (NUL # drop (?k + 1) ?buf)[Suc (126 - ?k) := NUL]"
  proof -
    have "127 - ?k = Suc (126 - ?k)" by (auto simp: min_def)
    then show ?thesis by (simp only:)
  qed
  also have "\<dots> = take ?k ?s @ NUL # (drop (?k + 1) ?buf)[126 - ?k := NUL]"
    by simp
  finally have eq: "header_array st e lvl = take ?k ?s @ NUL # (drop (?k + 1) ?buf)[126 - ?k := NUL]" .
  have nn: "NUL \<notin> set (take ?k ?s)"
    using header_text_no_NUL [of st e lvl] by (auto dest: in_set_takeD)
  have "c_str (header_array st e lvl) = take ?k ?s"
    unfolding eq by (rule c_str_cut [OF nn])
  then show ?thesis by (simp add: min_def)
qed


lemma header_text_getFromPool [simp]:
  "header_text (snd (getFromPool t st)) e lvl = header_text st e lvl"
  by (simp add: header_text_def getFromPool_def Let_def)

lemma Stream_overwritten:
  "(b::Stream)\<lparr>level := l, space := sp, quote := q, str := x\<rparr> =
     \<lparr>str = x, level = l, space = sp, quote = q\<rparr>"
  by (cases b) simp

lemma ctor_active:
  assumes "level_num (severityLevel st) \<le> level_num lvl"
  shows "LoggerStream_ctor e t lvl st =
           (Some (fst (getFromPool t st)),
            (snd (getFromPool t st))
              \<lparr>heap := (heap (snd (getFromPool t st)))
                 (fst (getFromPool t st) :=
                    \<lparr>str = take 126 (header_text st e lvl), level = lvl,
                     space = True, quote = False\<rparr>)\<rparr>)"
  using assms
  by (simp add: LoggerStream_ctor_def Let_def case_prod_beta c_str_header_array Stream_overwritten)

lemma ctor_inactive:
  "\<not> level_num (severityLevel st) \<le> level_num lvl \<Longrightarrow> LoggerStream_ctor e t lvl st = (None, st)"
  by (simp add: LoggerStream_ctor_def)


section \<open>Facts about handles and the first stream\<close>

lemma dtor_shared:
  "1 < use_count st a \<Longrightarrow>
   LoggerStream_dtor t (Some a) st
     = Returned (st\<lparr>use_count := (use_count st)(a := use_count st a - 1)\<rparr>)"
  by (simp add: LoggerStream_dtor_def)

lemma header_text_doc:
  "header_text st doc_env lvl =
     c_str (applicationPrefix st) @ ''03.08.2017 12:44:15.737 '' @ [logLevelToChar lvl]
     @ '' [26629] '' @ c_str (messagePrefix st) @ '': ''"
  by (simp add: header_text_def doc_env_def printf_0d_two printf_0d_three printf_d_four
     c_div_nonneg two_digits_def three_digits_def four_digits_def digit_char_def printf_d_nat
     digits_ge10 digits_lt10)

lemma ctor_doc_init:
  "LoggerStream_ctor doc_env 0 lvl init_state =
     (Some 0,
      init_state
        \<lparr>heap := (heap init_state)
           (0 := \<lparr>str = ''03.08.2017 12:44:15.737 '' @ [logLevelToChar lvl] @ '' [26629] : '',
                  level = lvl, space = True, quote = False\<rparr>),
         use_count := (use_count init_state)(0 := 1),
         next_addr := 1\<rparr>)"
proof -
  have a: "level_num (severityLevel init_state) \<le> level_num lvl"
    by (simp add: init_state_def)
  have g: "getFromPool 0 init_state =
      (0, init_state\<lparr>heap := (heap init_state)(0 := Stream0),
                      use_count := (use_count init_state)(0 := 1), next_addr := 1\<rparr>)"
    by (simp add: getFromPool_def init_state_def)
  have h: "take 126 (header_text init_state doc_env lvl)
      = ''03.08.2017 12:44:15.737 '' @ [logLevelToChar lvl] @ '' [26629] : ''"
    by (simp add: header_text_doc) (simp add: init_state_def c_str_def)
  show ?thesis
    by (simp add: ctor_active [OF a] g h)
qed

lemma first_stream_eq:
  "first_stream lvl =
      init_state
        \<lparr>heap := (heap init_state)
           (0 := \<lparr>str = ''03.08.2017 12:44:15.737 '' @ [logLevelToChar lvl] @ '' [26629] : '',
                  level = lvl, space = True, quote = False\<rparr>),
         use_count := (use_count init_state)(0 := 1),
         next_addr := 1\<rparr>"
  by (simp add: first_stream_def ctor_doc_init)

section \<open>Facts about the constructor and the example runs\<close>

lemma ctor_Some:
  assumes "LoggerStream_ctor e t lvl st = (Some a, st')"
  shows "level_num (severityLevel st) \<le> level_num lvl"
    and "a = fst (getFromPool t st)"
    and "st' = (snd (getFromPool t st))
              \<lparr>heap := (heap (snd (getFromPool t st)))
                 (a := \<lparr>str = take 126 (header_text st e lvl), level = lvl,
                     space = True, quote = False\<rparr>)\<rparr>"
    and "heap st' a = \<lparr>str = take 126 (header_text st e lvl), level = lvl,
                        space = True, quote = False\<rparr>"
proof -
  show act: "level_num (severityLevel st) \<le> level_num lvl"
    using assms by (cases "level_num (severityLevel st) \<le> level_num lvl") (simp_all add: ctor_inactive)
  show a: "a = fst (getFromPool t st)"
    using assms by (auto simp: ctor_active [OF act])
  show st': "st' = (snd (getFromPool t st))
              \<lparr>heap := (heap (snd (getFromPool t st)))
                 (a := \<lparr>str = take 126 (header_text st e lvl), level = lvl,
                     space = True, quote = False\<rparr>)\<rparr>"
    using assms by (auto simp: ctor_active [OF act])
  show "heap st' a = \<lparr>str = take 126 (header_text st e lvl), level = lvl,
                        space = True, quote = False\<rparr>"
    by (simp add: st')
qed

lemma header_text_spec:
  assumes "valid_reading e"
  shows "header_text st e lvl = spec_header_for st e lvl"
proof -
  let ?tm = "local_tm e"
  from assms have d: "printf_0d 2 (tm_mday ?tm) = two_digits (nat (tm_mday ?tm))"
    by (intro printf_0d_two) (simp_all add: valid_reading_def)
  from assms have m: "printf_0d 2 (tm_mon ?tm + 1) = two_digits (nat (tm_mon ?tm + 1))"
    by (intro printf_0d_two) (simp_all add: valid_reading_def)
  from assms have y: "printf_d (tm_year ?tm + 1900) = four_digits (nat (tm_year ?tm + 1900))"
    by (intro printf_d_four) (simp_all add: valid_reading_def)
  from assms have h: "printf_0d 2 (tm_hour ?tm) = two_digits (nat (tm_hour ?tm))"
    by (intro printf_0d_two) (simp_all add: valid_reading_def)
  from assms have mi: "printf_0d 2 (tm_min ?tm) = two_digits (nat (tm_min ?tm))"
    by (intro printf_0d_two) (simp_all add: valid_reading_def)
  from assms have s: "printf_0d 2 (tm_sec ?tm) = two_digits (nat (tm_sec ?tm))"
    by (intro printf_0d_two) (simp_all add: valid_reading_def)
  from assms have u0: "0 \<le> tv_usec e" "tv_usec e \<le> 999999"
    by (simp_all add: valid_reading_def)
  then have "tv_usec e div 1000 < 1000" by simp
  moreover from u0 have "0 \<le> tv_usec e div 1000" by simp
  ultimately have u: "0 \<le> tv_usec e" "tv_usec e div 1000 < 1000" "0 \<le> tv_usec e div 1000"
    using u0 by simp_all
  then have ms: "printf_0d 3 (c_div (tv_usec e) 1000) = three_digits (nat (tv_usec e div 1000))"
    by (simp add: c_div_nonneg printf_0d_three)
  from assms have p: "printf_d (pid e) = digits (nat (pid e))"
    by (intro printf_d_nat) (simp add: valid_reading_def)
  show ?thesis
    unfolding header_text_def spec_header_for_def spec_header_def d m y h mi s ms p
    by simp
qed

lemma valid_doc_env: "valid_reading doc_env"
  by (simp add: valid_reading_def doc_env_def)

lemma ctor_first_stream: "LoggerStream_ctor doc_env 0 lvl init_state = (Some 0, first_stream lvl)"
  by (simp add: ctor_doc_init first_stream_eq)

lemma spec_header_doc:
  "spec_header_for st doc_env lvl =
     c_str (applicationPrefix st) @ ''03.08.2017 12:44:15.737 '' @ [logLevelToChar lvl]
     @ '' [26629] '' @ c_str (messagePrefix st) @ '': ''"
  using header_text_spec [OF valid_doc_env, of st lvl] by (simp add: header_text_doc)

lemma c_str_long_prefix:
  "c_str (messagePrefix long_prefix_state) = replicate 120 CHR ''m''"
  "c_str (applicationPrefix long_prefix_state) = []"
  by (simp_all add: long_prefix_state_def setMessagePrefix_def init_state_def c_str_def NUL_def)

lemma header_text_long:
  "header_text long_prefix_state doc_env Info
     = ''03.08.2017 12:44:15.737 I [26629] '' @ replicate 120 CHR ''m'' @ '': ''"
  by (simp add: header_text_doc c_str_long_prefix)

lemma take_header_text_long:
  "take 126 (header_text long_prefix_state doc_env Info)
     = ''03.08.2017 12:44:15.737 I [26629] '' @ replicate 92 CHR ''m''"
  by (simp add: header_text_long)

lemma ctor_long:
  "LoggerStream_ctor doc_env 0 Info long_prefix_state
     = (Some 0, snd (LoggerStream_ctor doc_env 0 Info long_prefix_state))"
proof -
  have a: "level_num (severityLevel long_prefix_state) \<le> level_num Info"
    by (simp add: long_prefix_state_def setMessagePrefix_def init_state_def)
  have "fst (getFromPool 0 long_prefix_state) = 0"
    by (simp add: getFromPool_def long_prefix_state_def setMessagePrefix_def init_state_def)
  then show ?thesis by (simp add: ctor_active [OF a])
qed

lemma after_first_message_eq:
  "after_first_message =
     init_state
       \<lparr>heap := (heap init_state)
          (0 := \<lparr>str = ''03.08.2017 12:44:15.737 W [26629] : '' @ [CHR 0x22, CHR ''x'', CHR 0x22],
                 level = Warning, space = False, quote = True\<rparr>),
        use_count := (use_count init_state)(0 := 1),
        next_addr := 1,
        trace := [Fprintf Stderr (''03.08.2017 12:44:15.737 W [26629] : ''
                    @ [CHR 0x22, CHR ''x'', CHR 0x22, CHR 0x0A]), Fflush Stderr],
        pool := (pool init_state)(0 := [0])\<rparr>"
  by (simp add: after_first_message_def first_stream_eq LoggerStream_nospace_def
      LoggerStream_quote_def shl_cstr_def addLogMessage_def LoggerStream_dtor_def
      logHandler_def pushToPool_def Let_def)
     (simp add: init_state_def c_str_def NUL_def)

lemma ctor_after_first_message:
  "LoggerStream_ctor doc_env 0 Info after_first_message
     = (Some 0, snd (LoggerStream_ctor doc_env 0 Info after_first_message))"
proof -
  have a: "level_num (severityLevel after_first_message) \<le> level_num Info"
    by (simp add: after_first_message_eq init_state_def)
  have "fst (getFromPool 0 after_first_message) = 0"
    by (simp add: getFromPool_def after_first_message_eq init_state_def)
  then show ?thesis by (simp add: ctor_active [OF a])
qed

lemma addLogMessage_heap:
  "heap (addLogMessage a s st) a =
     (heap st a)\<lparr>str := str (heap st a)
        @ (if space (heap st a) then '' '' else [])
        @ (if quote (heap st a) then [CHR 0x22] else [])
        @ s
        @ (if quote (heap st a) then [CHR 0x22] else [])\<rparr>"
  by (simp add: addLogMessage_def Let_def)

section \<open>Facts about programs\<close>

lemma count_list_remove_nth:
  "i < length xs \<Longrightarrow>
   count_list (remove_nth i xs) x = count_list xs x - (if xs ! i = x then 1 else 0)"
proof -
  assume "i < length xs"
  then have "xs = take i xs @ xs ! i # drop (Suc i) xs" by (rule id_take_nth_drop)
  then have "count_list xs x = count_list (take i xs @ xs ! i # drop (Suc i) xs) x" by simp
  then show ?thesis by (simp add: remove_nth_def)
qed

lemma in_set_count_list: "x \<in> set xs \<longleftrightarrow> 0 < count_list xs x"
  using count_list_0_iff [of xs x] by auto

lemma set_remove_nth:
  "i < length xs \<Longrightarrow>
   set (remove_nth i xs) = (if count_list xs (xs ! i) = 1 then set xs - {xs ! i} else set xs)"
proof -
  assume i: "i < length xs"
  then have "0 < count_list xs (xs ! i)" using in_set_count_list nth_mem by metis
  then show ?thesis
    by (auto simp: in_set_count_list count_list_remove_nth [OF i] split: if_splits)
qed

lemma client_inv_init: "client_inv init_client"
  by (simp add: client_inv_def init_client_def init_state_def pooled_def dispatch_count_def)


lemma chain_frame:
  "use_count (chain op h st) = use_count st" "pool (chain op h st) = pool st"
  "next_addr (chain op h st) = next_addr st" "trace (chain op h st) = trace st"
  by (cases op; cases h;
      simp add: LoggerStream_space_def LoggerStream_nospace_def LoggerStream_quote_def
        LoggerStream_noquote_def shl_cstr_def shl_string_def shl_char_def shl_int_def
        addLogMessage_def Let_def)+

lemma configure_frame:
  "use_count (configure op st) = use_count st" "pool (configure op st) = pool st"
  "next_addr (configure op st) = next_addr st"
  "dispatch_count (trace (configure op st)) = dispatch_count (trace st)"
  by (cases op;
      simp add: setOutputHandler_def setSeverityLevel_def setSeverityLevel_name_def
        setApplicationPrefix_def setMessagePrefix_def setLogFileName_def rotateFile_def
        dispatch_count_def Let_def split: sum.splits)+

lemma client_invI:
  assumes "\<And>a. use_count (logger c) a
            = count_list (handles c) (Some a) + (if pooled (logger c) a then 1 else 0)"
    and "\<And>a. Some a \<in> set (handles c) \<Longrightarrow> \<not> pooled (logger c) a"
    and "\<And>t. distinct (pool (logger c) t)"
    and "\<And>t t'. t \<noteq> t' \<Longrightarrow> set (pool (logger c) t) \<inter> set (pool (logger c) t') = {}"
    and "\<And>a. next_addr (logger c) \<le> a \<Longrightarrow> use_count (logger c) a = 0"
    and "dispatch_count (trace (logger c)) + card (set (handles c) - {None}) = started c"
  shows "client_inv c"
  unfolding client_inv_def using assms by blast

lemma inv_countD:
  "client_inv c \<Longrightarrow>
   use_count (logger c) a = count_list (handles c) (Some a) + (if pooled (logger c) a then 1 else 0)"
  unfolding client_inv_def by blast

lemma inv_ownedD: "client_inv c \<Longrightarrow> Some a \<in> set (handles c) \<Longrightarrow> \<not> pooled (logger c) a"
  unfolding client_inv_def by blast

lemma inv_distinctD: "client_inv c \<Longrightarrow> distinct (pool (logger c) t)"
  unfolding client_inv_def by blast

lemma inv_disjointD:
  "client_inv c \<Longrightarrow> t \<noteq> t' \<Longrightarrow> set (pool (logger c) t) \<inter> set (pool (logger c) t') = {}"
  unfolding client_inv_def by blast

lemma inv_freshD: "client_inv c \<Longrightarrow> next_addr (logger c) \<le> a \<Longrightarrow> use_count (logger c) a = 0"
  unfolding client_inv_def by blast

lemma inv_onceD:
  "client_inv c \<Longrightarrow> dispatch_count (trace (logger c)) + card (set (handles c) - {None}) = started c"
  unfolding client_inv_def by blast

lemma inv_frame:
  assumes "client_inv c"
    and "\<And>a. count_list (handles c') (Some a) = count_list (handles c) (Some a)"
    and "started c' = started c"
    and "use_count (logger c') = use_count (logger c)"
    and "pool (logger c') = pool (logger c)"
    and "next_addr (logger c') = next_addr (logger c)"
    and "dispatch_count (trace (logger c')) = dispatch_count (trace (logger c))"
  shows "client_inv c'"
proof -
  have mem: "\<And>a. Some a \<in> set (handles c') \<longleftrightarrow> Some a \<in> set (handles c)"
    by (simp add: in_set_count_list assms(2))
  have sets: "set (handles c') - {None} = set (handles c) - {None}"
  proof (rule set_eqI)
    fix x show "x \<in> set (handles c') - {None} \<longleftrightarrow> x \<in> set (handles c) - {None}"
      by (cases x) (simp_all add: mem)
  qed
  have p: "\<And>a. pooled (logger c') a = pooled (logger c) a"
    by (simp add: pooled_def assms(5))
  show ?thesis
  proof (rule client_invI)
    fix a show "use_count (logger c') a
        = count_list (handles c') (Some a) + (if pooled (logger c') a then 1 else 0)"
      using inv_countD [OF assms(1), of a] by (simp add: assms(2,4) p)
  next
    fix a assume "Some a \<in> set (handles c')"
    then show "\<not> pooled (logger c') a"
      using inv_ownedD [OF assms(1), of a] by (simp add: mem p)
  next
    fix t show "distinct (pool (logger c') t)"
      using inv_distinctD [OF assms(1), of t] by (simp add: assms(5))
  next
    fix t t' :: tid assume "t \<noteq> t'"
    then show "set (pool (logger c') t) \<inter> set (pool (logger c') t') = {}"
      using inv_disjointD [OF assms(1), of t t'] by (simp add: assms(5))
  next
    fix a assume "next_addr (logger c') \<le> a"
    then show "use_count (logger c') a = 0"
      using inv_freshD [OF assms(1), of a] by (simp add: assms(4,6))
  next
    show "dispatch_count (trace (logger c')) + card (set (handles c') - {None}) = started c'"
      using inv_onceD [OF assms(1)] by (simp add: assms(3,7) sets)
  qed
qed

lemma inv_chain:
  "client_inv c \<Longrightarrow> client_inv (c\<lparr>logger := chain op h (logger c)\<rparr>)"
  by (erule inv_frame) (simp_all add: chain_frame)

lemma inv_configure:
  "client_inv c \<Longrightarrow> client_inv (c\<lparr>logger := configure op (logger c)\<rparr>)"
  by (erule inv_frame) (simp_all add: configure_frame)


lemma inv_handle_count:
  assumes "client_inv c" and "Some a \<in> set (handles c)"
  shows "use_count (logger c) a = count_list (handles c) (Some a)"
    and "0 < use_count (logger c) a" and "a < next_addr (logger c)"
proof -
  show 1: "use_count (logger c) a = count_list (handles c) (Some a)"
    using inv_countD [OF assms(1), of a] inv_ownedD [OF assms] by simp
  show 2: "0 < use_count (logger c) a"
    using 1 assms(2) by (simp add: in_set_count_list)
  show "a < next_addr (logger c)"
    using inv_freshD [OF assms(1), of a] 2 by (cases "a < next_addr (logger c)") simp_all
qed

lemma inv_copy:
  assumes "client_inv c" and "i < length (handles c)"
    and "LoggerStream_copy (handles c ! i) (logger c) = (h, st)"
  shows "client_inv (c\<lparr>logger := st, handles := handles c @ [h]\<rparr>)"
proof (cases "handles c ! i")
  case None
  with assms(3) have "h = None" "st = logger c" by (simp_all add: LoggerStream_copy_def)
  then show ?thesis
    by (intro inv_frame [OF assms(1)]) simp_all
next
  case (Some a)
  from assms(2) Some have m: "Some a \<in> set (handles c)" by (metis nth_mem)
  from Some assms(3) have h: "h = Some a"
    and st: "st = (logger c)\<lparr>use_count := (use_count (logger c))(a := use_count (logger c) a + 1)\<rparr>"
    by (simp_all add: LoggerStream_copy_def)
  have p: "\<And>b. pooled st b = pooled (logger c) b" by (simp add: st pooled_def)
  note hc = inv_handle_count [OF assms(1) m]
  show ?thesis
  proof (rule client_invI)
    fix b
    show "use_count (logger (c\<lparr>logger := st, handles := handles c @ [h]\<rparr>)) b
        = count_list (handles (c\<lparr>logger := st, handles := handles c @ [h]\<rparr>)) (Some b)
          + (if pooled (logger (c\<lparr>logger := st, handles := handles c @ [h]\<rparr>)) b then 1 else 0)"
      using inv_countD [OF assms(1), of b] by (simp add: p h) (simp add: st)
  next
    fix b
    assume "Some b \<in> set (handles (c\<lparr>logger := st, handles := handles c @ [h]\<rparr>))"
    then have "Some b \<in> set (handles c)" using m by (auto simp: h)
    then show "\<not> pooled (logger (c\<lparr>logger := st, handles := handles c @ [h]\<rparr>)) b"
      using inv_ownedD [OF assms(1)] by (simp add: p)
  next
    fix t
    show "distinct (pool (logger (c\<lparr>logger := st, handles := handles c @ [h]\<rparr>)) t)"
      using inv_distinctD [OF assms(1), of t] by (simp add: st)
  next
    fix t t' :: tid
    assume "t \<noteq> t'"
    then show "set (pool (logger (c\<lparr>logger := st, handles := handles c @ [h]\<rparr>)) t)
        \<inter> set (pool (logger (c\<lparr>logger := st, handles := handles c @ [h]\<rparr>)) t') = {}"
      using inv_disjointD [OF assms(1), of t t'] by (simp add: st)
  next
    fix b
    assume "next_addr (logger (c\<lparr>logger := st, handles := handles c @ [h]\<rparr>)) \<le> b"
    then have n: "next_addr (logger c) \<le> b" by (simp add: st)
    with hc(3) have "b \<noteq> a" by auto
    with inv_freshD [OF assms(1) n]
    show "use_count (logger (c\<lparr>logger := st, handles := handles c @ [h]\<rparr>)) b = 0"
      by (simp add: st)
  next
    have "insert (Some a) (set (handles c) - {None}) = set (handles c) - {None}"
      using m by auto
    then show "dispatch_count (trace (logger (c\<lparr>logger := st, handles := handles c @ [h]\<rparr>)))
        + card (set (handles (c\<lparr>logger := st, handles := handles c @ [h]\<rparr>)) - {None})
        = started (c\<lparr>logger := st, handles := handles c @ [h]\<rparr>)"
      using inv_onceD [OF assms(1)] by (simp add: h insert_Diff_if) (simp add: st)
  qed
qed


lemma dispatch_count_append:
  "dispatch_count (xs @ ys) = dispatch_count xs + dispatch_count ys"
  by (simp add: dispatch_count_def)

lemma dtor_last:
  assumes "use_count st a = 1" and "LoggerStream_dtor t (Some a) st = Returned st'"
  shows "pool st' = (pool st)(t := pool st t @ [a])" and "use_count st' = use_count st"
    and "next_addr st' = next_addr st"
    and "dispatch_count (trace st') = dispatch_count (trace st) + 1"
  using assms
  by (auto simp: LoggerStream_dtor_def logHandler_def pushToPool_def Let_def
      dispatch_count_def split: option.splits if_splits)

lemma pooled_push:
  assumes "pool st' = (pool st)(t := pool st t @ [a])"
  shows "pooled st' b \<longleftrightarrow> pooled st b \<or> b = a"
  unfolding pooled_def assms by (auto split: if_splits)

lemma pooled_pop:
  assumes "pool st' = (pool st)(t := butlast (pool st t))" and "pool st t \<noteq> []"
    and "distinct (pool st t)"
    and "\<And>t'. t' \<noteq> t \<Longrightarrow> set (pool st t) \<inter> set (pool st t') = {}"
  shows "pooled st' b \<longleftrightarrow> pooled st b \<and> b \<noteq> last (pool st t)"
proof -
  let ?xs = "pool st t"
  have xs: "?xs = butlast ?xs @ [last ?xs]" using assms(2) by simp
  have l: "last ?xs \<in> set ?xs" using assms(2) by simp
  have nb: "last ?xs \<notin> set (butlast ?xs)"
    using assms(3) xs by (metis distinct_append disjoint_iff list.set_intros(1))
  have bl: "\<And>x. x \<in> set (butlast ?xs) \<longleftrightarrow> x \<in> set ?xs \<and> x \<noteq> last ?xs"
  proof -
    fix x
    have "set ?xs = insert (last ?xs) (set (butlast ?xs))"
      using xs by (metis list.simps(15) rotate1.simps(2) set_rotate1)
    then show "x \<in> set (butlast ?xs) \<longleftrightarrow> x \<in> set ?xs \<and> x \<noteq> last ?xs"
      using nb by auto
  qed
  show ?thesis
  proof
    assume "pooled st' b"
    then obtain t' where t': "b \<in> set (pool st' t')" unfolding pooled_def by blast
    show "pooled st b \<and> b \<noteq> last ?xs"
    proof (cases "t' = t")
      case True
      with t' have "b \<in> set (butlast ?xs)" by (simp add: assms(1))
      then show ?thesis unfolding pooled_def using bl by blast
    next
      case False
      with t' have b: "b \<in> set (pool st t')" by (simp add: assms(1))
      with assms(4) [OF False] l have "b \<noteq> last ?xs" by auto
      with b show ?thesis unfolding pooled_def by blast
    qed
  next
    assume a: "pooled st b \<and> b \<noteq> last ?xs"
    then obtain t' where t': "b \<in> set (pool st t')" unfolding pooled_def by blast
    show "pooled st' b"
    proof (cases "t' = t")
      case True
      with t' a have "b \<in> set (butlast ?xs)" using bl by blast
      then have "b \<in> set (pool st' t)" by (simp add: assms(1))
      then show ?thesis unfolding pooled_def by blast
    next
      case False
      with t' have "b \<in> set (pool st' t')" by (simp add: assms(1))
      then show ?thesis unfolding pooled_def by blast
    qed
  qed
qed


lemma inv_dtor:
  assumes "client_inv c" and "i < length (handles c)"
    and "LoggerStream_dtor t (handles c ! i) (logger c) = Returned st"
  shows "client_inv (c\<lparr>logger := st, handles := remove_nth i (handles c)\<rparr>)"
proof (cases "handles c ! i")
  case None
  with assms(3) have "st = logger c" by (simp add: LoggerStream_dtor_def)
  then show ?thesis
    by (intro inv_frame [OF assms(1)]) (simp_all add: count_list_remove_nth [OF assms(2)] None)
next
  case (Some a)
  let ?c' = "c\<lparr>logger := st, handles := remove_nth i (handles c)\<rparr>"
  from assms(2) Some have m: "Some a \<in> set (handles c)" by (metis nth_mem)
  note hc = inv_handle_count [OF assms(1) m]
  have cnt: "\<And>b. count_list (remove_nth i (handles c)) (Some b)
      = count_list (handles c) (Some b) - (if b = a then 1 else 0)"
    by (auto simp: count_list_remove_nth [OF assms(2)] Some)
  have sub: "\<And>b. Some b \<in> set (remove_nth i (handles c)) \<Longrightarrow> Some b \<in> set (handles c)"
    by (simp add: set_remove_nth [OF assms(2)] split: if_splits)
  show ?thesis
  proof (cases "use_count (logger c) a = 1")
    case False
    with hc(2) have gt: "1 < use_count (logger c) a" by simp
    from False assms(3) Some have st:
      "st = (logger c)\<lparr>use_count := (use_count (logger c))(a := use_count (logger c) a - 1)\<rparr>"
      by (simp add: LoggerStream_dtor_def)
    have p: "\<And>b. pooled st b = pooled (logger c) b" by (simp add: st pooled_def)
    have keep: "set (remove_nth i (handles c)) = set (handles c)"
      using gt hc(1) by (simp add: set_remove_nth [OF assms(2)] Some)
    show ?thesis
    proof (rule client_invI)
      fix b
      show "use_count (logger ?c') b
          = count_list (handles ?c') (Some b) + (if pooled (logger ?c') b then 1 else 0)"
        using inv_countD [OF assms(1), of b] gt hc(1) inv_ownedD [OF assms(1) m]
        by (simp add: cnt p) (simp add: st)
    next
      fix b assume "Some b \<in> set (handles ?c')"
      then show "\<not> pooled (logger ?c') b"
        using inv_ownedD [OF assms(1), of b] sub by (simp add: p)
    next
      fix t' show "distinct (pool (logger ?c') t')"
        using inv_distinctD [OF assms(1), of t'] by (simp add: st)
    next
      fix t1 t2 :: tid assume "t1 \<noteq> t2"
      then show "set (pool (logger ?c') t1) \<inter> set (pool (logger ?c') t2) = {}"
        using inv_disjointD [OF assms(1), of t1 t2] by (simp add: st)
    next
      fix b assume "next_addr (logger ?c') \<le> b"
      then have n: "next_addr (logger c) \<le> b" by (simp add: st)
      with hc(3) have "b \<noteq> a" by auto
      with inv_freshD [OF assms(1) n] show "use_count (logger ?c') b = 0" by (simp add: st)
    next
      show "dispatch_count (trace (logger ?c')) + card (set (handles ?c') - {None}) = started ?c'"
        using inv_onceD [OF assms(1)] keep by (simp add: st)
    qed
  next
    case True
    from assms(3) Some have d: "LoggerStream_dtor t (Some a) (logger c) = Returned st" by simp
    note dl = dtor_last [OF True d]
    have p: "\<And>b. pooled st b \<longleftrightarrow> pooled (logger c) b \<or> b = a"
      by (rule pooled_push [OF dl(1)])
    have na: "\<not> pooled (logger c) a" by (rule inv_ownedD [OF assms(1) m])
    have one: "count_list (handles c) (Some a) = 1" using hc(1) True by simp
    have gone: "set (remove_nth i (handles c)) = set (handles c) - {Some a}"
      using one by (simp add: set_remove_nth [OF assms(2)] Some)
    show ?thesis
    proof (rule client_invI)
      fix b
      show "use_count (logger ?c') b
          = count_list (handles ?c') (Some b) + (if pooled (logger ?c') b then 1 else 0)"
        using inv_countD [OF assms(1), of b] one na True
        by (cases "b = a") (simp_all add: cnt p dl(2))
    next
      fix b assume b: "Some b \<in> set (handles ?c')"
      then have "b \<noteq> a" by (simp add: gone)
      moreover from b have "\<not> pooled (logger c) b"
        using inv_ownedD [OF assms(1), of b] sub [of b] by simp
      ultimately show "\<not> pooled (logger ?c') b" by (simp add: p)
    next
      fix t'
      have "a \<notin> set (pool (logger c) t)" using na unfolding pooled_def by blast
      then show "distinct (pool (logger ?c') t')"
        using inv_distinctD [OF assms(1), of t'] inv_distinctD [OF assms(1), of t]
        by (simp add: dl(1))
    next
      fix t1 t2 :: tid assume "t1 \<noteq> t2"
      moreover have "\<And>t'. a \<notin> set (pool (logger c) t')" using na unfolding pooled_def by blast
      ultimately show "set (pool (logger ?c') t1) \<inter> set (pool (logger ?c') t2) = {}"
        using inv_disjointD [OF assms(1), of t1 t2] by (auto simp: dl(1))
    next
      fix b assume "next_addr (logger ?c') \<le> b"
      then show "use_count (logger ?c') b = 0"
        using inv_freshD [OF assms(1), of b] by (simp add: dl(2,3))
    next
      have "Some a \<in> set (handles c) - {None}" using m by simp
      moreover have "set (remove_nth i (handles c)) - {None} = (set (handles c) - {None}) - {Some a}"
        using gone by auto
      ultimately have "card (set (remove_nth i (handles c)) - {None}) + 1 = card (set (handles c) - {None})"
        by (metis List.finite_set One_nat_def add.commute card_Diff_singleton card_gt_0_iff
            empty_iff finite_Diff le_add_diff_inverse less_eq_Suc_le plus_1_eq_Suc)
      then show "dispatch_count (trace (logger ?c')) + card (set (handles ?c') - {None})
          = started ?c'"
        using inv_onceD [OF assms(1)] by (simp add: dl(4))
    qed
  qed
qed


lemma ctor_fresh:
  assumes "LoggerStream_ctor e t lvl st0 = (h, st)"
    and "level_num (severityLevel st0) \<le> level_num lvl" and "pool st0 t = []"
  shows "h = Some (next_addr st0)" and "use_count st = (use_count st0)(next_addr st0 := 1)"
    and "pool st = pool st0" and "next_addr st = next_addr st0 + 1" and "trace st = trace st0"
  using assms(1,3) unfolding ctor_active [OF assms(2)]
  by (auto simp: getFromPool_def Let_def)

lemma ctor_recycled:
  assumes "LoggerStream_ctor e t lvl st0 = (h, st)"
    and "level_num (severityLevel st0) \<le> level_num lvl" and "pool st0 t \<noteq> []"
  shows "h = Some (last (pool st0 t))" and "use_count st = use_count st0"
    and "pool st = (pool st0)(t := butlast (pool st0 t))" and "next_addr st = next_addr st0"
    and "trace st = trace st0"
  using assms(1,3) unfolding ctor_active [OF assms(2)]
  by (auto simp: getFromPool_def Let_def)

lemma inv_ctor:
  assumes "client_inv c" and "LoggerStream_ctor e t lvl (logger c) = (h, st)"
  shows "client_inv (c\<lparr>logger := st, handles := handles c @ [h],
                       started := (if h = None then started c else started c + 1)\<rparr>)"
proof (cases "level_num (severityLevel (logger c)) \<le> level_num lvl")
  case False
  with assms(2) have "h = None" "st = logger c" by (simp_all add: ctor_inactive)
  then show ?thesis by (intro inv_frame [OF assms(1)]) simp_all
next
  case act: True
  let ?c' = "c\<lparr>logger := st, handles := handles c @ [h],
                started := (if h = None then started c else started c + 1)\<rparr>"
  show ?thesis
  proof (cases "pool (logger c) t = []")
    case True
    note f = ctor_fresh [OF assms(2) act True]
    let ?a = "next_addr (logger c)"
    have u0: "use_count (logger c) ?a = 0" by (rule inv_freshD [OF assms(1)]) simp
    with inv_countD [OF assms(1), of ?a]
    have c0: "count_list (handles c) (Some ?a) = 0" and np: "\<not> pooled (logger c) ?a"
      by (simp_all split: if_splits)
    have nm: "Some ?a \<notin> set (handles c)" using c0 by (simp add: in_set_count_list)
    have p: "\<And>b. pooled st b = pooled (logger c) b" by (simp add: pooled_def f(3))
    show ?thesis
    proof (rule client_invI)
      fix b
      show "use_count (logger ?c') b
          = count_list (handles ?c') (Some b) + (if pooled (logger ?c') b then 1 else 0)"
        using inv_countD [OF assms(1), of b] c0 np
        by (cases "b = ?a") (simp_all add: f(1,2) p)
    next
      fix b assume "Some b \<in> set (handles ?c')"
      then have "b = ?a \<or> Some b \<in> set (handles c)" by (auto simp: f(1))
      then show "\<not> pooled (logger ?c') b"
        using np inv_ownedD [OF assms(1), of b] by (auto simp: p)
    next
      fix t' show "distinct (pool (logger ?c') t')"
        using inv_distinctD [OF assms(1), of t'] by (simp add: f(3))
    next
      fix t1 t2 :: tid assume "t1 \<noteq> t2"
      then show "set (pool (logger ?c') t1) \<inter> set (pool (logger ?c') t2) = {}"
        using inv_disjointD [OF assms(1), of t1 t2] by (simp add: f(3))
    next
      fix b assume "next_addr (logger ?c') \<le> b"
      then have "?a < b" by (simp add: f(4))
      then show "use_count (logger ?c') b = 0"
        using inv_freshD [OF assms(1), of b] by (simp add: f(2))
    next
      have "Some ?a \<notin> set (handles c) - {None}" using nm by simp
      then have "card (insert (Some ?a) (set (handles c) - {None}))
          = Suc (card (set (handles c) - {None}))"
        by (simp add: card_insert_disjoint)
      then show "dispatch_count (trace (logger ?c')) + card (set (handles ?c') - {None})
          = started ?c'"
        using inv_onceD [OF assms(1)] by (simp add: f(1,5) insert_Diff_if)
    qed
  next
    case False
    note r = ctor_recycled [OF assms(2) act False]
    let ?a = "last (pool (logger c) t)"
    have l: "?a \<in> set (pool (logger c) t)" using False by simp
    then have pa: "pooled (logger c) ?a" unfolding pooled_def by blast
    have nm: "Some ?a \<notin> set (handles c)" using inv_ownedD [OF assms(1), of ?a] pa by blast
    then have c0: "count_list (handles c) (Some ?a) = 0" by (simp add: in_set_count_list)
    have p: "\<And>b. pooled st b \<longleftrightarrow> pooled (logger c) b \<and> b \<noteq> ?a"
      using inv_disjointD [OF assms(1)]
      by (intro pooled_pop [OF r(3) False inv_distinctD [OF assms(1)]]) auto
    show ?thesis
    proof (rule client_invI)
      fix b
      show "use_count (logger ?c') b
          = count_list (handles ?c') (Some b) + (if pooled (logger ?c') b then 1 else 0)"
        using inv_countD [OF assms(1), of b] c0 pa
        by (cases "b = ?a") (simp_all add: r(1,2) p)
    next
      fix b assume "Some b \<in> set (handles ?c')"
      then have "b = ?a \<or> Some b \<in> set (handles c)" by (auto simp: r(1))
      then show "\<not> pooled (logger ?c') b"
        using inv_ownedD [OF assms(1), of b] by (auto simp: p)
    next
      fix t' show "distinct (pool (logger ?c') t')"
        using inv_distinctD [OF assms(1), of t'] inv_distinctD [OF assms(1), of t]
        by (simp add: r(3) distinct_butlast)
    next
      fix t1 t2 :: tid assume "t1 \<noteq> t2"
      then show "set (pool (logger ?c') t1) \<inter> set (pool (logger ?c') t2) = {}"
        using inv_disjointD [OF assms(1), of t1 t2]
        by (auto simp: r(3) dest: in_set_butlastD)
    next
      fix b assume "next_addr (logger ?c') \<le> b"
      then show "use_count (logger ?c') b = 0"
        using inv_freshD [OF assms(1), of b] by (simp add: r(2,4))
    next
      have "Some ?a \<notin> set (handles c) - {None}" using nm by simp
      then have "card (insert (Some ?a) (set (handles c) - {None}))
          = Suc (card (set (handles c) - {None}))"
        by (simp add: card_insert_disjoint)
      then show "dispatch_count (trace (logger ?c')) + card (set (handles ?c') - {None})
          = started ?c'"
        using inv_onceD [OF assms(1)] by (simp add: r(1,5) insert_Diff_if)
    qed
  qed
qed

lemma inv_step:
  assumes "client_inv c" and "step act c = Returned c'"
  shows "client_inv c'"
proof (cases act)
  case (Construct e t lvl)
  obtain h st where hs: "LoggerStream_ctor e t lvl (logger c) = (h, st)" by fastforce
  with assms(2) Construct have "c' = c\<lparr>logger := st, handles := handles c @ [h],
      started := (if h = None then started c else started c + 1)\<rparr>"
    by simp
  then show ?thesis using inv_ctor [OF assms(1) hs] by simp
next
  case (CopyConstruct i)
  show ?thesis
  proof (cases "i < length (handles c)")
    case True
    obtain h st where hs: "LoggerStream_copy (handles c ! i) (logger c) = (h, st)" by fastforce
    with assms(2) CopyConstruct True have "c' = c\<lparr>logger := st, handles := handles c @ [h]\<rparr>"
      by simp
    then show ?thesis using inv_copy [OF assms(1) True hs] by simp
  next
    case False
    with assms CopyConstruct show ?thesis by simp
  qed
next
  case (Destroy t i)
  show ?thesis
  proof (cases "i < length (handles c)")
    case True
    with assms(2) Destroy obtain st where
      d: "LoggerStream_dtor t (handles c ! i) (logger c) = Returned st"
      and "c' = c\<lparr>logger := st, handles := remove_nth i (handles c)\<rparr>"
      by (auto split: outcome.splits)
    then show ?thesis using inv_dtor [OF assms(1) True d] by simp
  next
    case False
    with assms Destroy show ?thesis by simp
  qed
next
  case (Chain i op)
  with assms show ?thesis by (auto simp: inv_chain split: if_splits)
next
  case (Configure op)
  with assms show ?thesis by (auto simp: inv_configure)
qed

lemma inv_exec:
  "client_inv c \<Longrightarrow> exec acts c = Returned c' \<Longrightarrow> client_inv c'"
proof (induction acts arbitrary: c)
  case Nil
  then show ?case by simp
next
  case (Cons act acts)
  from Cons.prems(2) obtain c1 where s: "step act c = Returned c1" and e: "exec acts c1 = Returned c'"
    by (auto split: outcome.splits)
  from Cons.IH [OF inv_step [OF Cons.prems(1) s] e] show ?case .
qed

lemma reachable_inv: "exec acts init_client = Returned c \<Longrightarrow> client_inv c"
  by (rule inv_exec [OF client_inv_init])


lemma logger_step_Destroy:
  "i < length (handles c) \<Longrightarrow>
   logger (final (step (Destroy t i) c)) = final (LoggerStream_dtor t (handles c ! i) (logger c))
   \<and> aborted (step (Destroy t i) c) = aborted (LoggerStream_dtor t (handles c ! i) (logger c))
   \<and> (\<not> aborted (step (Destroy t i) c) \<longrightarrow>
        handles (final (step (Destroy t i) c)) = remove_nth i (handles c))"
  by (simp split: outcome.splits)

lemma two_handles_run:
  "exec [Construct doc_env 0 Info, CopyConstruct 0, Chain 1 (ShlCstr ''a'')] init_client
     = Returned two_handles"
  "handles two_handles = [Some 0, Some 0]"
  "started two_handles = 1"
  "use_count (logger two_handles) 0 = 2"
  "trace (logger two_handles) = []"
  "pool (logger two_handles) = (\<lambda>_. [])"
  by (simp_all add: two_handles_def init_client_def ctor_first_stream LoggerStream_copy_def
      shl_cstr_def addLogMessage_def Let_def)
     (simp_all add: first_stream_eq init_state_def)

lemma one_handle_run:
  "exec [Construct doc_env 0 Info, CopyConstruct 0, Chain 1 (ShlCstr ''a''), Destroy 1 0]
     init_client = Returned one_handle"
  "handles one_handle = [Some 0]"
  "started one_handle = 1"
  "trace (logger one_handle) = []"
  "pool (logger one_handle) = (\<lambda>_. [])"
  "outputHandler (logger one_handle) = None"
  "outputStream (logger one_handle) = Stderr"
  "level (heap (logger one_handle) 0) = Info"
  "c_str (str (heap (logger one_handle) 0)) = ''03.08.2017 12:44:15.737 I [26629] :  a''"
  by (simp_all add: one_handle_def init_client_def ctor_first_stream LoggerStream_copy_def
      shl_cstr_def addLogMessage_def Let_def LoggerStream_dtor_def remove_nth_def)
     (simp_all add: first_stream_eq init_state_def c_str_def NUL_def)

section \<open>One flush for each message\<close>

text \<open>
  Claim C1, as the code has it. Take any program that constructs, copy-constructs and
  destroys streams, makes chained and configuration calls, in any order and on any
  threads, and assigns no stream; take any state it reaches and any object in it that
  holds a buffer \<open>a\<close>. The use count of \<open>a\<close> is the number of objects that share it, and
  \<open>a\<close> is in no pool. Destroying the object while others share the buffer only releases
  its count: no flush and no pool return. Destroying it as the last one, on thread \<open>t\<close>,
  is the one dispatch of the message: the handler call, or the write and flush, with the
  level and text of the buffer; after it the buffer is pushed onto the pool of thread
  \<open>t\<close>, unless the level is \<open>Fatal\<close>: then the process is aborted in the dispatch and no
  pool changes. Every message is dispatched once: the dispatches so far and the buffers
  still held by objects add up to the active streams constructed.
\<close>

theorem flush_on_last_handle:
  assumes "exec acts init_client = Returned c"
    and "i < length (handles c)" and "handles c ! i = Some a"
  shows "use_count (logger c) a = count_list (handles c) (Some a)
     \<and> (\<forall>t'. a \<notin> set (pool (logger c) t'))
     \<and> (1 < count_list (handles c) (Some a) \<longrightarrow>
          step (Destroy t i) c
            = Returned (c\<lparr>logger := (logger c)\<lparr>use_count :=
                              (use_count (logger c))(a := use_count (logger c) a - 1)\<rparr>,
                           handles := remove_nth i (handles c)\<rparr>))
     \<and> (count_list (handles c) (Some a) = 1 \<longrightarrow>
          trace (logger (final (step (Destroy t i) c)))
            = trace (logger c) @
              (case outputHandler (logger c) of
                 Some handler \<Rightarrow> [Call handler (level (heap (logger c) a))
                                    (c_str (str (heap (logger c) a)))]
               | None \<Rightarrow> [Fprintf (outputStream (logger c))
                            (c_str (str (heap (logger c) a)) @ [CHR 0x0A]),
                          Fflush (outputStream (logger c))])
          \<and> aborted (step (Destroy t i) c) = (level (heap (logger c) a) = Fatal)
          \<and> pool (logger (final (step (Destroy t i) c)))
              = (if level (heap (logger c) a) = Fatal then pool (logger c)
                 else (pool (logger c))(t := pool (logger c) t @ [a]))
          \<and> (level (heap (logger c) a) \<noteq> Fatal \<longrightarrow>
                handles (final (step (Destroy t i) c)) = remove_nth i (handles c)))
     \<and> dispatch_count (trace (logger c)) + card (set (handles c) - {None}) = started c"
proof -
  have inv: "client_inv c" using assms(1) by (rule reachable_inv)
  from assms(2,3) have m: "Some a \<in> set (handles c)" by (metis nth_mem)
  note hc = inv_handle_count [OF inv m]
  note ls = logger_step_Destroy [OF assms(2), of t, unfolded assms(3)]
  have 1: "use_count (logger c) a = count_list (handles c) (Some a)" by (rule hc(1))
  have 2: "\<forall>t'. a \<notin> set (pool (logger c) t')"
    using inv_ownedD [OF inv m] unfolding pooled_def by blast
  have 3: "1 < count_list (handles c) (Some a) \<longrightarrow>
          step (Destroy t i) c
            = Returned (c\<lparr>logger := (logger c)\<lparr>use_count :=
                              (use_count (logger c))(a := use_count (logger c) a - 1)\<rparr>,
                           handles := remove_nth i (handles c)\<rparr>)"
    using assms(2,3) by (simp add: 1 [symmetric] dtor_shared)
  have 4: "count_list (handles c) (Some a) = 1 \<longrightarrow>
          trace (logger (final (step (Destroy t i) c)))
            = trace (logger c) @
              (case outputHandler (logger c) of
                 Some handler \<Rightarrow> [Call handler (level (heap (logger c) a))
                                    (c_str (str (heap (logger c) a)))]
               | None \<Rightarrow> [Fprintf (outputStream (logger c))
                            (c_str (str (heap (logger c) a)) @ [CHR 0x0A]),
                          Fflush (outputStream (logger c))])
          \<and> aborted (step (Destroy t i) c) = (level (heap (logger c) a) = Fatal)
          \<and> pool (logger (final (step (Destroy t i) c)))
              = (if level (heap (logger c) a) = Fatal then pool (logger c)
                 else (pool (logger c))(t := pool (logger c) t @ [a]))
          \<and> (level (heap (logger c) a) \<noteq> Fatal \<longrightarrow>
                handles (final (step (Destroy t i) c)) = remove_nth i (handles c))"
  proof
    assume "count_list (handles c) (Some a) = 1"
    then have u: "use_count (logger c) a = 1" by (simp add: 1)
    have ab: "aborted (LoggerStream_dtor t (Some a) (logger c)) = (level (heap (logger c) a) = Fatal)"
      using u by (simp add: LoggerStream_dtor_def logHandler_def Let_def)
    have tr: "trace (final (LoggerStream_dtor t (Some a) (logger c)))
            = trace (logger c) @
              (case outputHandler (logger c) of
                 Some handler \<Rightarrow> [Call handler (level (heap (logger c) a))
                                    (c_str (str (heap (logger c) a)))]
               | None \<Rightarrow> [Fprintf (outputStream (logger c))
                            (c_str (str (heap (logger c) a)) @ [CHR 0x0A]),
                          Fflush (outputStream (logger c))])"
      using u
      by (simp add: LoggerStream_dtor_def logHandler_def pushToPool_def Let_def split: option.splits)
    have po: "pool (final (LoggerStream_dtor t (Some a) (logger c)))
              = (if level (heap (logger c) a) = Fatal then pool (logger c)
                 else (pool (logger c))(t := pool (logger c) t @ [a]))"
      using u
      by (simp add: LoggerStream_dtor_def logHandler_def pushToPool_def Let_def split: option.splits)
    show "trace (logger (final (step (Destroy t i) c)))
            = trace (logger c) @
              (case outputHandler (logger c) of
                 Some handler \<Rightarrow> [Call handler (level (heap (logger c) a))
                                    (c_str (str (heap (logger c) a)))]
               | None \<Rightarrow> [Fprintf (outputStream (logger c))
                            (c_str (str (heap (logger c) a)) @ [CHR 0x0A]),
                          Fflush (outputStream (logger c))])
          \<and> aborted (step (Destroy t i) c) = (level (heap (logger c) a) = Fatal)
          \<and> pool (logger (final (step (Destroy t i) c)))
              = (if level (heap (logger c) a) = Fatal then pool (logger c)
                 else (pool (logger c))(t := pool (logger c) t @ [a]))
          \<and> (level (heap (logger c) a) \<noteq> Fatal \<longrightarrow>
                handles (final (step (Destroy t i) c)) = remove_nth i (handles c))"
      using ls ab tr po by simp
  qed
  have 5: "dispatch_count (trace (logger c)) + card (set (handles c) - {None}) = started c"
    by (rule inv_onceD [OF inv])
  from 1 2 3 4 5 show ?thesis by blast
qed


theorem flush_on_last_handle_witness:
  "exec [Construct doc_env 0 Info, CopyConstruct 0, Chain 1 (ShlCstr ''a'')] init_client
     = Returned two_handles
   \<and> handles two_handles = [Some 0, Some 0]
   \<and> step (Destroy 1 0) two_handles
       = Returned (two_handles\<lparr>logger := (logger two_handles)\<lparr>use_count :=
                                   (use_count (logger two_handles))(0 := 1)\<rparr>,
                                handles := [Some 0]\<rparr>)
   \<and> exec [Construct doc_env 0 Info, CopyConstruct 0, Chain 1 (ShlCstr ''a''), Destroy 1 0]
       init_client = Returned one_handle
   \<and> handles one_handle = [Some 0]
   \<and> \<not> aborted (step (Destroy 2 0) one_handle)
   \<and> trace (logger (final (step (Destroy 2 0) one_handle)))
       = [Fprintf Stderr (''03.08.2017 12:44:15.737 I [26629] :  a'' @ [CHR 0x0A]), Fflush Stderr]
   \<and> pool (logger (final (step (Destroy 2 0) one_handle))) 2 = [0]
   \<and> handles (final (step (Destroy 2 0) one_handle)) = []
   \<and> dispatch_count (trace (logger one_handle)) + card (set (handles one_handle) - {None}) = 1"
proof -
  have i2: "0 < length (handles two_handles)" "handles two_handles ! 0 = Some 0"
    by (simp_all add: two_handles_run)
  have i1: "0 < length (handles one_handle)" "handles one_handle ! 0 = Some 0"
    by (simp_all add: one_handle_run)
  note t2 = flush_on_last_handle [OF two_handles_run(1) i2, of 1]
  note t1 = flush_on_last_handle [OF one_handle_run(1) i1, of 2]
  have r: "remove_nth 0 [Some (0::nat), Some 0] = [Some 0]" "remove_nth 0 [Some (0::nat)] = []"
    by (simp_all add: remove_nth_def)
  from t2 have a: "step (Destroy 1 0) two_handles
       = Returned (two_handles\<lparr>logger := (logger two_handles)\<lparr>use_count :=
                                   (use_count (logger two_handles))(0 := 1)\<rparr>,
                                handles := [Some 0]\<rparr>)"
    by (simp add: two_handles_run r)
  from t1 have b: "\<not> aborted (step (Destroy 2 0) one_handle)
   \<and> trace (logger (final (step (Destroy 2 0) one_handle)))
       = [Fprintf Stderr (''03.08.2017 12:44:15.737 I [26629] :  a'' @ [CHR 0x0A]), Fflush Stderr]
   \<and> pool (logger (final (step (Destroy 2 0) one_handle))) 2 = [0]
   \<and> handles (final (step (Destroy 2 0) one_handle)) = []
   \<and> dispatch_count (trace (logger one_handle)) + card (set (handles one_handle) - {None}) = 1"
    by (simp add: one_handle_run r)
  from a b two_handles_run(1,2) one_handle_run(1,2) show ?thesis by blast
qed

text \<open>
  The first message of a process, at level \<open>Fatal\<close>: its only handle is destroyed, the line
  is written and flushed, the process is aborted, and the pool of the thread is still
  empty.
\<close>

theorem fatal_buffer_not_pooled:
  "LoggerStream_ctor doc_env 0 Fatal init_state = (Some 0, first_stream Fatal)
   \<and> use_count (first_stream Fatal) 0 = 1
   \<and> aborted (LoggerStream_dtor 0 (Some 0) (first_stream Fatal))
   \<and> trace (final (LoggerStream_dtor 0 (Some 0) (first_stream Fatal)))
       = [Fprintf Stderr (''03.08.2017 12:44:15.737 E [26629] : '' @ [CHR 0x0A]), Fflush Stderr]
   \<and> pool (final (LoggerStream_dtor 0 (Some 0) (first_stream Fatal))) 0 = []"
  by (simp add: first_stream_eq ctor_doc_init)
     (simp add: LoggerStream_dtor_def logHandler_def init_state_def c_str_def NUL_def)

text \<open>
  Outside the programs above: a \<open>Warning\<close> stream at buffer 0, an \<open>Info\<close> stream at buffer
  1, and the second assigned to the first. Buffer 0 is left with use count 0, nothing has
  been dispatched and no pool holds it.
\<close>

lemma assignment_drops_message:
  "LoggerStream_ctor doc_env 0 Info (first_stream Warning)
     = (Some 1, snd (LoggerStream_ctor doc_env 0 Info (first_stream Warning)))
   \<and> use_count (snd (LoggerStream_assign (Some 0) (Some 1)
         (snd (LoggerStream_ctor doc_env 0 Info (first_stream Warning))))) 0 = 0
   \<and> use_count (snd (LoggerStream_assign (Some 0) (Some 1)
         (snd (LoggerStream_ctor doc_env 0 Info (first_stream Warning))))) 1 = 2
   \<and> trace (snd (LoggerStream_assign (Some 0) (Some 1)
         (snd (LoggerStream_ctor doc_env 0 Info (first_stream Warning))))) = []
   \<and> pool (snd (LoggerStream_assign (Some 0) (Some 1)
         (snd (LoggerStream_ctor doc_env 0 Info (first_stream Warning))))) 0 = []"
proof -
  have a: "level_num (severityLevel (first_stream Warning)) \<le> level_num Info"
    by (simp add: first_stream_eq init_state_def)
  have g: "getFromPool 0 (first_stream Warning)
      = (1, (first_stream Warning)\<lparr>heap := (heap (first_stream Warning))(1 := Stream0),
             use_count := (use_count (first_stream Warning))(1 := 1), next_addr := 2\<rparr>)"
    by (simp add: getFromPool_def first_stream_eq init_state_def)
  show ?thesis
    by (simp add: ctor_active [OF a] g LoggerStream_assign_def)
       (simp add: first_stream_eq init_state_def)
qed

section \<open>The severity filter\<close>

text \<open>
  Claim C2. For every level \<open>L\<close> and every threshold \<open>T\<close> in force when the constructor
  runs, the stream is active (its pointer is not empty) exactly when \<open>L >= T\<close> in the
  order \<open>Debug < Info < Warning < Error < Fatal\<close>. An inactive stream holds no buffer and
  its construction leaves the state as it was: nothing is allocated or taken from a pool.
  On it \<open>space\<close>, \<open>nospace\<close>, \<open>quote\<close>, \<open>noquote\<close> and every \<open><<\<close> do nothing, a copy is
  inactive again, and the destructor returns without a dispatch.
\<close>

theorem severity_filter:
  "(fst (LoggerStream_ctor e t lvl st) \<noteq> None) = (level_num lvl \<ge> level_num (severityLevel st))
   \<and> level_num Debug < level_num Info \<and> level_num Info < level_num Warning
   \<and> level_num Warning < level_num Error \<and> level_num Error < level_num Fatal
   \<and> (fst (LoggerStream_ctor e t lvl st) = None \<longrightarrow> snd (LoggerStream_ctor e t lvl st) = st)
   \<and> LoggerStream_space None st = st \<and> LoggerStream_nospace None st = st
   \<and> LoggerStream_quote None st = st \<and> LoggerStream_noquote None st = st
   \<and> shl_cstr None s st = st \<and> shl_string None s st = st
   \<and> shl_char None c st = st \<and> shl_int None n st = st
   \<and> LoggerStream_copy None st = (None, st)
   \<and> LoggerStream_dtor t None st = Returned st"
proof (cases "level_num (severityLevel st) \<le> level_num lvl")
  case True
  then show ?thesis
    by (simp add: ctor_active LoggerStream_space_def LoggerStream_nospace_def
        LoggerStream_quote_def LoggerStream_noquote_def shl_cstr_def shl_string_def
        shl_char_def shl_int_def LoggerStream_copy_def LoggerStream_dtor_def)
next
  case False
  then show ?thesis
    by (simp add: ctor_inactive LoggerStream_space_def LoggerStream_nospace_def
        LoggerStream_quote_def LoggerStream_noquote_def shl_cstr_def shl_string_def
        shl_char_def shl_int_def LoggerStream_copy_def LoggerStream_dtor_def)
qed

theorem severity_filter_witness:
  "fst (LoggerStream_ctor doc_env 0 Info (setSeverityLevel Warning init_state)) = None
   \<and> snd (LoggerStream_ctor doc_env 0 Info (setSeverityLevel Warning init_state))
       = setSeverityLevel Warning init_state
   \<and> fst (LoggerStream_ctor doc_env 0 Warning (setSeverityLevel Warning init_state)) \<noteq> None
   \<and> fst (LoggerStream_ctor doc_env 0 Fatal (setSeverityLevel Warning init_state)) \<noteq> None"
  using severity_filter [of doc_env 0 Info "setSeverityLevel Warning init_state"]
    severity_filter [of doc_env 0 Warning "setSeverityLevel Warning init_state"]
    severity_filter [of doc_env 0 Fatal "setSeverityLevel Warning init_state"]
  by (simp add: setSeverityLevel_def)

section \<open>The header\<close>

text \<open>
  Claim C3, as the code has it. For every active stream and every wall-clock reading, the
  text seeded into the buffer is the first 126 characters of the layout
  \<open><appPrefix><DD>.<MM>.<YYYY> <HH>:<MM>:<SS>.<mmm> <LevelChar> [<pid>] <messagePrefix>: \<close>,
  so the whole layout when that has at most 126 characters. The prefixes stand in it as
  C strings. The level character is \<open>D\<close>, \<open>I\<close>, \<open>W\<close> for \<open>Debug\<close>, \<open>Info\<close>, \<open>Warning\<close> and
  \<open>E\<close> for both \<open>Error\<close> and \<open>Fatal\<close>.
\<close>

theorem header_layout:
  assumes "LoggerStream_ctor e t lvl st = (Some a, st')" and "valid_reading e"
  shows "str (heap st' a) = take 126 (spec_header_for st e lvl)
     \<and> (length (spec_header_for st e lvl) \<le> 126 \<longrightarrow> str (heap st' a) = spec_header_for st e lvl)
     \<and> logLevelToChar Debug = CHR ''D'' \<and> logLevelToChar Info = CHR ''I''
     \<and> logLevelToChar Warning = CHR ''W'' \<and> logLevelToChar Error = CHR ''E''
     \<and> logLevelToChar Fatal = CHR ''E''"
  using ctor_Some(4) [OF assms(1)] header_text_spec [OF assms(2), of st lvl]
  by simp

theorem header_layout_witness:
  "valid_reading doc_env
   \<and> LoggerStream_ctor doc_env 0 Info init_state = (Some 0, first_stream Info)
   \<and> str (heap (first_stream Info) 0) = ''03.08.2017 12:44:15.737 I [26629] : ''"
proof -
  have "str (heap (first_stream Info) 0) = take 126 (spec_header_for init_state doc_env Info)"
    using header_layout [OF ctor_first_stream valid_doc_env] by simp
  also have "\<dots> = ''03.08.2017 12:44:15.737 I [26629] : ''"
    by (simp add: spec_header_doc) (simp add: init_state_def c_str_def)
  finally show ?thesis
    using valid_doc_env ctor_first_stream by simp
qed

text \<open>
  With a message prefix of 120 characters the layout has 156 characters, and the buffer
  is seeded with its first 126: the end of the prefix and the final colon and space are
  missing.
\<close>

theorem header_cut_off:
  "valid_reading doc_env
   \<and> fst (LoggerStream_ctor doc_env 0 Info long_prefix_state) = Some 0
   \<and> str (heap (snd (LoggerStream_ctor doc_env 0 Info long_prefix_state)) 0)
       = ''03.08.2017 12:44:15.737 I [26629] '' @ replicate 92 CHR ''m''
   \<and> spec_header_for long_prefix_state doc_env Info
       = ''03.08.2017 12:44:15.737 I [26629] '' @ replicate 120 CHR ''m'' @ '': ''
   \<and> str (heap (snd (LoggerStream_ctor doc_env 0 Info long_prefix_state)) 0)
       \<noteq> spec_header_for long_prefix_state doc_env Info"
proof -
  let ?S = "snd (LoggerStream_ctor doc_env 0 Info long_prefix_state)"
  have 1: "fst (LoggerStream_ctor doc_env 0 Info long_prefix_state) = Some 0"
    using ctor_long by (metis fst_conv)
  have 2: "str (heap ?S 0) = ''03.08.2017 12:44:15.737 I [26629] '' @ replicate 92 CHR ''m''"
    using ctor_Some(4) [OF ctor_long] by (simp add: take_header_text_long)
  have 3: "spec_header_for long_prefix_state doc_env Info
       = ''03.08.2017 12:44:15.737 I [26629] '' @ replicate 120 CHR ''m'' @ '': ''"
    by (simp add: spec_header_doc c_str_long_prefix)
  have "length (str (heap ?S 0)) = 126" unfolding 2 by simp
  moreover have "length (spec_header_for long_prefix_state doc_env Info) = 156"
    unfolding 3 by simp
  ultimately have 4: "str (heap ?S 0) \<noteq> spec_header_for long_prefix_state doc_env Info"
    by auto
  from valid_doc_env 1 2 3 4 show ?thesis by blast
qed

text \<open>
  Claim C4. Whatever the prefixes, the array \<open>header\<close> keeps its 128 elements and ends in
  a NUL; the header read from it has at most 127 characters (at most 126, in fact) and is
  the formatted text with its end dropped. The constructor seeds the buffer with exactly
  that and has no error result.
\<close>

theorem header_bounded:
  "length (header_array st e lvl) = 128
   \<and> header_array st e lvl ! 127 = NUL
   \<and> length (c_str (header_array st e lvl)) \<le> 127
   \<and> c_str (header_array st e lvl) = take 126 (header_text st e lvl)
   \<and> (LoggerStream_ctor e t lvl st = (Some a, st') \<longrightarrow>
        str (heap st' a) = c_str (header_array st e lvl) \<and> length (str (heap st' a)) \<le> 127)"
proof -
  have 1: "length (header_array st e lvl) = 128"
    by (rule length_header_array)
  have 2: "header_array st e lvl ! 127 = NUL"
    by (simp add: header_array_def snprintf_def Let_def)
  have 3: "c_str (header_array st e lvl) = take 126 (header_text st e lvl)"
    by (rule c_str_header_array)
  have 4: "length (c_str (header_array st e lvl)) \<le> 127"
    unfolding 3 by simp
  have 5: "LoggerStream_ctor e t lvl st = (Some a, st') \<longrightarrow>
        str (heap st' a) = c_str (header_array st e lvl) \<and> length (str (heap st' a)) \<le> 127"
    by (auto simp: 3 dest: ctor_Some(4))
  from 1 2 3 4 5 show ?thesis by blast
qed

theorem header_bounded_witness:
  "LoggerStream_ctor doc_env 0 Info long_prefix_state
     = (Some 0, snd (LoggerStream_ctor doc_env 0 Info long_prefix_state))
   \<and> length (header_text long_prefix_state doc_env Info) = 156
   \<and> length (str (heap (snd (LoggerStream_ctor doc_env 0 Info long_prefix_state)) 0)) = 126
   \<and> length (header_array long_prefix_state doc_env Info) = 128"
proof -
  have l: "length (header_text long_prefix_state doc_env Info) = 156"
    by (simp add: header_text_long)
  show ?thesis
    using header_bounded [of long_prefix_state doc_env Info 0 0
        "snd (LoggerStream_ctor doc_env 0 Info long_prefix_state)"] ctor_long l
    by simp
qed

section \<open>Appending tokens\<close>

text \<open>
  Claim C5. For every active stream and every token, the append reads the flags as they
  are at that moment: a set space flag puts one space before the token, a set quote flag
  one double quote on each side of it, and the append changes neither flag. The toggles
  change their flag and nothing of the text, so they bear on later tokens only. A new
  stream separates by spaces and does not quote: after the header \<open>h\<close>, the tokens \<open>a\<close>,
  \<open>b\<close>, \<open>c\<close> give \<open>h a b c\<close>, after \<open>nospace()\<close> they give \<open>habc\<close>, after \<open>quote()\<close> they
  give \<open>h "a" "b" "c"\<close>, and toggles between the tokens act from there on.
\<close>

theorem append_honours_flags:
  "str (heap (shl_string (Some a) tok st) a)
     = str (heap st a)
       @ (if space (heap st a) then '' '' else [])
       @ (if quote (heap st a) then [CHR 0x22] else [])
       @ tok
       @ (if quote (heap st a) then [CHR 0x22] else [])
   \<and> space (heap (shl_string (Some a) tok st) a) = space (heap st a)
   \<and> quote (heap (shl_string (Some a) tok st) a) = quote (heap st a)
   \<and> shl_cstr (Some a) tok st = shl_string (Some a) (c_str tok) st
   \<and> shl_char (Some a) c st = shl_string (Some a) [c] st
   \<and> shl_int (Some a) i st = shl_string (Some a) (printf_d i) st
   \<and> heap (LoggerStream_space (Some a) st) a = (heap st a)\<lparr>space := True\<rparr>
   \<and> heap (LoggerStream_nospace (Some a) st) a = (heap st a)\<lparr>space := False\<rparr>
   \<and> heap (LoggerStream_quote (Some a) st) a = (heap st a)\<lparr>quote := True\<rparr>
   \<and> heap (LoggerStream_noquote (Some a) st) a = (heap st a)\<lparr>quote := False\<rparr>
   \<and> (LoggerStream_ctor e t lvl st = (Some a, s) \<longrightarrow>
        space (heap s a) \<and> \<not> quote (heap s a)
        \<and> str (heap (shl_cstr (Some a) ''c'' (shl_cstr (Some a) ''b''
                  (shl_cstr (Some a) ''a'' s))) a)
            = str (heap s a) @ '' a b c''
        \<and> str (heap (shl_cstr (Some a) ''c'' (shl_cstr (Some a) ''b''
                  (shl_cstr (Some a) ''a'' (LoggerStream_nospace (Some a) s)))) a)
            = str (heap s a) @ ''abc''
        \<and> str (heap (shl_cstr (Some a) ''c'' (shl_cstr (Some a) ''b''
                  (shl_cstr (Some a) ''a'' (LoggerStream_quote (Some a) s)))) a)
            = str (heap s a)
              @ [CHR '' '', CHR 0x22, CHR ''a'', CHR 0x22, CHR '' '', CHR 0x22, CHR ''b'', CHR 0x22,
                 CHR '' '', CHR 0x22, CHR ''c'', CHR 0x22]
        \<and> str (heap (shl_cstr (Some a) ''c'' (LoggerStream_quote (Some a)
                  (shl_cstr (Some a) ''b'' (LoggerStream_nospace (Some a)
                    (shl_cstr (Some a) ''a'' s))))) a)
            = str (heap s a) @ '' ab'' @ [CHR 0x22, CHR ''c'', CHR 0x22])"
proof -
  have ops: "str (heap (shl_string (Some a) tok st) a)
     = str (heap st a)
       @ (if space (heap st a) then '' '' else [])
       @ (if quote (heap st a) then [CHR 0x22] else [])
       @ tok
       @ (if quote (heap st a) then [CHR 0x22] else [])
   \<and> space (heap (shl_string (Some a) tok st) a) = space (heap st a)
   \<and> quote (heap (shl_string (Some a) tok st) a) = quote (heap st a)
   \<and> shl_cstr (Some a) tok st = shl_string (Some a) (c_str tok) st
   \<and> shl_char (Some a) c st = shl_string (Some a) [c] st
   \<and> shl_int (Some a) i st = shl_string (Some a) (printf_d i) st
   \<and> heap (LoggerStream_space (Some a) st) a = (heap st a)\<lparr>space := True\<rparr>
   \<and> heap (LoggerStream_nospace (Some a) st) a = (heap st a)\<lparr>space := False\<rparr>
   \<and> heap (LoggerStream_quote (Some a) st) a = (heap st a)\<lparr>quote := True\<rparr>
   \<and> heap (LoggerStream_noquote (Some a) st) a = (heap st a)\<lparr>quote := False\<rparr>"
    by (simp add: shl_string_def shl_cstr_def shl_char_def shl_int_def addLogMessage_heap
        LoggerStream_space_def LoggerStream_nospace_def LoggerStream_quote_def
        LoggerStream_noquote_def)
  have chains: "LoggerStream_ctor e t lvl st = (Some a, s) \<longrightarrow>
        space (heap s a) \<and> \<not> quote (heap s a)
        \<and> str (heap (shl_cstr (Some a) ''c'' (shl_cstr (Some a) ''b''
                  (shl_cstr (Some a) ''a'' s))) a)
            = str (heap s a) @ '' a b c''
        \<and> str (heap (shl_cstr (Some a) ''c'' (shl_cstr (Some a) ''b''
                  (shl_cstr (Some a) ''a'' (LoggerStream_nospace (Some a) s)))) a)
            = str (heap s a) @ ''abc''
        \<and> str (heap (shl_cstr (Some a) ''c'' (shl_cstr (Some a) ''b''
                  (shl_cstr (Some a) ''a'' (LoggerStream_quote (Some a) s)))) a)
            = str (heap s a)
              @ [CHR '' '', CHR 0x22, CHR ''a'', CHR 0x22, CHR '' '', CHR 0x22, CHR ''b'', CHR 0x22,
                 CHR '' '', CHR 0x22, CHR ''c'', CHR 0x22]
        \<and> str (heap (shl_cstr (Some a) ''c'' (LoggerStream_quote (Some a)
                  (shl_cstr (Some a) ''b'' (LoggerStream_nospace (Some a)
                    (shl_cstr (Some a) ''a'' s))))) a)
            = str (heap s a) @ '' ab'' @ [CHR 0x22, CHR ''c'', CHR 0x22]"
  proof
    assume c: "LoggerStream_ctor e t lvl st = (Some a, s)"
    have f: "space (heap s a)" "\<not> quote (heap s a)"
      using ctor_Some(4) [OF c] by simp_all
    have cs: "c_str ''a'' = ''a''" "c_str ''b'' = ''b''" "c_str ''c'' = ''c''"
      by (simp_all add: c_str_def NUL_def)
    show "space (heap s a) \<and> \<not> quote (heap s a)
        \<and> str (heap (shl_cstr (Some a) ''c'' (shl_cstr (Some a) ''b''
                  (shl_cstr (Some a) ''a'' s))) a)
            = str (heap s a) @ '' a b c''
        \<and> str (heap (shl_cstr (Some a) ''c'' (shl_cstr (Some a) ''b''
                  (shl_cstr (Some a) ''a'' (LoggerStream_nospace (Some a) s)))) a)
            = str (heap s a) @ ''abc''
        \<and> str (heap (shl_cstr (Some a) ''c'' (shl_cstr (Some a) ''b''
                  (shl_cstr (Some a) ''a'' (LoggerStream_quote (Some a) s)))) a)
            = str (heap s a)
              @ [CHR '' '', CHR 0x22, CHR ''a'', CHR 0x22, CHR '' '', CHR 0x22, CHR ''b'', CHR 0x22,
                 CHR '' '', CHR 0x22, CHR ''c'', CHR 0x22]
        \<and> str (heap (shl_cstr (Some a) ''c'' (LoggerStream_quote (Some a)
                  (shl_cstr (Some a) ''b'' (LoggerStream_nospace (Some a)
                    (shl_cstr (Some a) ''a'' s))))) a)
            = str (heap s a) @ '' ab'' @ [CHR 0x22, CHR ''c'', CHR 0x22]"
      using f
      by (simp add: shl_cstr_def cs addLogMessage_heap LoggerStream_nospace_def
          LoggerStream_quote_def)
  qed
  from ops chains show ?thesis by blast
qed

theorem append_honours_flags_witness:
  "LoggerStream_ctor doc_env 0 Info init_state = (Some 0, first_stream Info)
   \<and> str (heap (shl_cstr (Some 0) ''c'' (shl_cstr (Some 0) ''b''
             (shl_cstr (Some 0) ''a'' (first_stream Info)))) 0)
       = ''03.08.2017 12:44:15.737 I [26629] :  a b c''
   \<and> str (heap (shl_cstr (Some 0) ''c'' (shl_cstr (Some 0) ''b''
             (shl_cstr (Some 0) ''a'' (LoggerStream_nospace (Some 0) (first_stream Info))))) 0)
       = ''03.08.2017 12:44:15.737 I [26629] : abc''
   \<and> str (heap (shl_cstr (Some 0) ''c'' (LoggerStream_quote (Some 0)
             (shl_cstr (Some 0) ''b'' (LoggerStream_nospace (Some 0)
               (shl_cstr (Some 0) ''a'' (first_stream Info)))))) 0)
       = ''03.08.2017 12:44:15.737 I [26629] :  ab'' @ [CHR 0x22, CHR ''c'', CHR 0x22]"
proof -
  have h: "str (heap (first_stream Info) 0) = ''03.08.2017 12:44:15.737 I [26629] : ''"
    by (simp add: first_stream_eq)
  show ?thesis
    using append_honours_flags [of 0 "[]" init_state "CHR ''x''" 0 doc_env 0 Info "first_stream Info"]
      ctor_first_stream [of Info]
    by (simp add: h)
qed

section \<open>Dispatch\<close>

text \<open>
  Claim C6. For every dispatch of a line: with an output handler installed, the handler is
  called with the level and the text, and nothing is written to a file; with none
  installed, the text and a newline are written to the current output stream, which is
  flushed at once. After that the process is aborted exactly when the level is \<open>Fatal\<close>:
  a dispatch at \<open>Fatal\<close> never returns.
\<close>

theorem logHandler_dispatch:
  "(outputHandler st = Some handler \<longrightarrow>
      final (logHandler lvl s st) = st\<lparr>trace := trace st @ [Call handler lvl s]\<rparr>)
   \<and> (outputHandler st = None \<longrightarrow>
      final (logHandler lvl s st)
        = st\<lparr>trace := trace st @ [Fprintf (outputStream st) (s @ [CHR 0x0A]),
                                    Fflush (outputStream st)]\<rparr>)
   \<and> aborted (logHandler lvl s st) = (lvl = Fatal)"
  by (simp add: logHandler_def Let_def)

theorem logHandler_dispatch_witness:
  "final (logHandler Fatal ''x'' (setOutputHandler (Some 7) init_state))
     = (setOutputHandler (Some 7) init_state)\<lparr>trace := [Call 7 Fatal ''x'']\<rparr>
   \<and> final (logHandler Error ''x'' init_state)
     = init_state\<lparr>trace := [Fprintf Stderr [CHR ''x'', CHR 0x0A], Fflush Stderr]\<rparr>
   \<and> aborted (logHandler Fatal ''x'' (setOutputHandler (Some 7) init_state))
   \<and> \<not> aborted (logHandler Error ''x'' init_state)"
  using logHandler_dispatch [of "setOutputHandler (Some 7) init_state" 7 Fatal "''x''"]
    logHandler_dispatch [of init_state 7 Error "''x''"]
  by (simp add: setOutputHandler_def init_state_def)

section \<open>Rotation of the log file\<close>

text \<open>
  Claim C7. For every \<open>rotateFile()\<close> call with a file name configured: when the name
  cannot be opened for append, one diagnostic line is written to \<open>stderr\<close> and the output
  stream stays what it was; when it can, the new handle becomes the output stream and
  the previous one is closed unless it was \<open>stderr\<close>. \<open>setLogFileName\<close> stores the name
  and rotates.
\<close>

theorem rotateFile_protocol:
  assumes "logFileName st \<noteq> []"
  shows "(fopen (c_str (logFileName st)) ''a'' = Inl err \<longrightarrow>
           rotateFile fopen st
             = st\<lparr>trace := trace st @
                   [Fprintf Stderr
                      (c_str (''cannot open log file '' @ [CHR 0x27] @ logFileName st @ [CHR 0x27])
                       @ '': '' @ err @ [CHR 0x0A])]\<rparr>)
         \<and> (fopen (c_str (logFileName st)) ''a'' = Inr newFile \<longrightarrow>
           rotateFile fopen st
             = st\<lparr>outputStream := newFile,
                  trace := trace st @ (if outputStream st = Stderr then []
                                       else [Fclose (outputStream st)])\<rparr>)
         \<and> setLogFileName fopen fileName st0 = rotateFile fopen (st0\<lparr>logFileName := fileName\<rparr>)"
  using assms by (simp add: rotateFile_def setLogFileName_def Let_def)

theorem rotateFile_protocol_witness:
  "outputStream (setLogFileName one_file ''/var/log/app.log'' init_state) = File 1
   \<and> trace (setLogFileName one_file ''/var/log/app.log'' init_state) = []
   \<and> outputStream (setLogFileName one_file ''/nonexistent''
         (setLogFileName one_file ''/var/log/app.log'' init_state)) = File 1
   \<and> trace (setLogFileName one_file ''/nonexistent''
         (setLogFileName one_file ''/var/log/app.log'' init_state))
       = [Fprintf Stderr
            (''cannot open log file '' @ [CHR 0x27] @ ''/nonexistent'' @ [CHR 0x27]
             @ '': No such file or directory'' @ [CHR 0x0A])]
   \<and> outputStream (rotateFile (\<lambda>path mode. Inr (File 2))
         (setLogFileName one_file ''/var/log/app.log'' init_state)) = File 2
   \<and> trace (rotateFile (\<lambda>path mode. Inr (File 2))
         (setLogFileName one_file ''/var/log/app.log'' init_state)) = [Fclose (File 1)]"
proof -
  let ?good = "''/var/log/app.log''"
  let ?s0 = "init_state\<lparr>logFileName := ?good\<rparr>"
  have n0: "logFileName ?s0 \<noteq> []" by simp
  have o0: "one_file (c_str (logFileName ?s0)) ''a'' = Inr (File 1)"
    by (simp add: one_file_def c_str_def NUL_def)
  have s1: "setLogFileName one_file ?good init_state
      = ?s0\<lparr>outputStream := File 1, trace := []\<rparr>"
    using rotateFile_protocol [OF n0, of one_file "''''" "File 1" ?good init_state] o0
    by (simp add: init_state_def)
  let ?s1 = "?s0\<lparr>outputStream := File 1, trace := []\<rparr>"
  let ?s2 = "?s1\<lparr>logFileName := ''/nonexistent''\<rparr>"
  have n2: "logFileName ?s2 \<noteq> []" by simp
  have o2: "one_file (c_str (logFileName ?s2)) ''a'' = Inl ''No such file or directory''"
    by (simp add: one_file_def c_str_def NUL_def)
  have s2: "setLogFileName one_file ''/nonexistent'' ?s1
      = ?s2\<lparr>trace := [Fprintf Stderr
            (''cannot open log file '' @ [CHR 0x27] @ ''/nonexistent'' @ [CHR 0x27]
             @ '': No such file or directory'' @ [CHR 0x0A])]\<rparr>"
    using rotateFile_protocol [OF n2, of one_file "''No such file or directory''" "File 1"
        "''/nonexistent''" ?s1] o2
    by (simp add: c_str_def NUL_def)
  have n1: "logFileName ?s1 \<noteq> []" by simp
  have s3: "rotateFile (\<lambda>path mode. Inr (File 2)) ?s1
      = ?s1\<lparr>outputStream := File 2, trace := [Fclose (File 1)]\<rparr>"
    using rotateFile_protocol [OF n1, of "\<lambda>path mode. Inr (File 2)" "''''" "File 2"]
    by simp
  show ?thesis
    unfolding s1 s2 s3 by simp
qed

section \<open>Severity names\<close>

text \<open>
  Claim C8. For every string given to \<open>setSeverityLevel(name)\<close>: the names \<open>debug\<close>,
  \<open>info\<close>, \<open>warning\<close> and \<open>error\<close>, compared case-sensitively, select the level of that
  name; every other string, \<open>bogus\<close> and \<open>fatal\<close> among them, selects \<open>Info\<close>. The call
  signals no error: it returns, and changes nothing but the severity level (the trace
  gets no diagnostic).
\<close>

theorem setSeverityLevel_by_name:
  "severityLevel (setSeverityLevel_name ''debug'' st) = Debug
   \<and> severityLevel (setSeverityLevel_name ''info'' st) = Info
   \<and> severityLevel (setSeverityLevel_name ''warning'' st) = Warning
   \<and> severityLevel (setSeverityLevel_name ''error'' st) = Error
   \<and> (name \<notin> {''debug'', ''info'', ''warning'', ''error''}
        \<longrightarrow> severityLevel (setSeverityLevel_name name st) = Info)
   \<and> severityLevel (setSeverityLevel_name ''bogus'' st) = Info
   \<and> severityLevel (setSeverityLevel_name ''fatal'' st) = Info
   \<and> setSeverityLevel_name name st
       = st\<lparr>severityLevel := severityLevel (setSeverityLevel_name name st)\<rparr>"
  by (simp add: setSeverityLevel_name_def setSeverityLevel_def)

theorem setSeverityLevel_by_name_witness:
  "severityLevel (setSeverityLevel_name ''Debug'' (setSeverityLevel Error init_state)) = Info
   \<and> trace (setSeverityLevel_name ''Debug'' (setSeverityLevel Error init_state)) = []"
proof -
  have "''Debug'' \<notin> {''debug'', ''info'', ''warning'', ''error''}" by simp
  moreover have "trace (setSeverityLevel Error init_state) = []"
    by (simp add: setSeverityLevel_def init_state_def)
  ultimately show ?thesis
    using setSeverityLevel_by_name [of "setSeverityLevel Error init_state" "''Debug''"]
    by (metis (no_types, lifting) state.select_convs(11) state.surjective state.update_convs(2))
qed

section \<open>Prefixes\<close>

text \<open>
  Claim C9. For every text: \<open>setApplicationPrefix\<close> stores a non-empty text with one
  space appended after it, and stores the empty string, with no space, for the empty
  text; \<open>setMessagePrefix\<close> stores the text as it is, the empty text clearing the prefix.
  Neither changes anything else.
\<close>

theorem prefixes_stored:
  "(prefix \<noteq> [] \<longrightarrow> applicationPrefix (setApplicationPrefix prefix st) = prefix @ '' '')
   \<and> applicationPrefix (setApplicationPrefix [] st) = []
   \<and> messagePrefix (setMessagePrefix prefix st) = prefix
   \<and> messagePrefix (setMessagePrefix [] st) = []
   \<and> setApplicationPrefix prefix st
       = st\<lparr>applicationPrefix := applicationPrefix (setApplicationPrefix prefix st)\<rparr>
   \<and> setMessagePrefix prefix st = st\<lparr>messagePrefix := prefix\<rparr>"
  by (simp add: setApplicationPrefix_def setMessagePrefix_def)

theorem prefixes_stored_witness:
  "applicationPrefix (setApplicationPrefix ''app'' init_state) = ''app ''
   \<and> messagePrefix (setMessagePrefix ''PREFIX'' init_state) = ''PREFIX''"
  using prefixes_stored [of "''app''" init_state] prefixes_stored [of "''PREFIX''" init_state]
  by simp

section \<open>Recycled buffers\<close>

text \<open>
  Claim C10. Every buffer the constructor acquires, the last of the thread's pool when
  there is one, holds after the construction the header alone as its text, the level of
  the new message, the space flag set and the quote flag cleared. Whatever the buffer held
  before makes no difference to the state the constructor leaves.
\<close>

theorem buffer_reset:
  assumes "LoggerStream_ctor e t lvl st = (Some a, st')"
  shows "heap st' a = \<lparr>str = c_str (header_array st e lvl), level = lvl,
                        space = True, quote = False\<rparr>
     \<and> (pool st t \<noteq> [] \<longrightarrow> a = last (pool st t) \<and> pool st' t = butlast (pool st t))
     \<and> LoggerStream_ctor e t lvl (st\<lparr>heap := (heap st)(a := b)\<rparr>) = (Some a, st')"
proof -
  have act: "level_num (severityLevel st) \<le> level_num lvl"
    using assms by (cases "level_num (severityLevel st) \<le> level_num lvl") (simp_all add: ctor_inactive)
  have act': "level_num (severityLevel (st\<lparr>heap := (heap st)(a := b)\<rparr>)) \<le> level_num lvl"
    using act by simp
  have a: "a = fst (getFromPool t st)"
    and st': "st' = (snd (getFromPool t st))
              \<lparr>heap := (heap (snd (getFromPool t st)))
                 (a := \<lparr>str = take 126 (header_text st e lvl), level = lvl,
                     space = True, quote = False\<rparr>)\<rparr>"
    using assms by (auto simp: ctor_active [OF act])
  have 1: "heap st' a = \<lparr>str = c_str (header_array st e lvl), level = lvl,
                        space = True, quote = False\<rparr>"
    by (simp add: st' c_str_header_array)
  have 2: "pool st t \<noteq> [] \<longrightarrow> a = last (pool st t) \<and> pool st' t = butlast (pool st t)"
    by (simp add: st' a getFromPool_def)
  have ht: "header_text (st\<lparr>heap := (heap st)(a := b)\<rparr>) e lvl = header_text st e lvl"
    by (simp add: header_text_def)
  have 3: "LoggerStream_ctor e t lvl (st\<lparr>heap := (heap st)(a := b)\<rparr>) = (Some a, st')"
    unfolding ctor_active [OF act'] ht
    by (simp add: st' a getFromPool_def Let_def)
  from 1 2 3 show ?thesis by blast
qed

theorem buffer_reset_witness:
  "pool after_first_message 0 = [0]
   \<and> heap after_first_message 0
       = \<lparr>str = ''03.08.2017 12:44:15.737 W [26629] : '' @ [CHR 0x22, CHR ''x'', CHR 0x22],
          level = Warning, space = False, quote = True\<rparr>
   \<and> fst (LoggerStream_ctor doc_env 0 Info after_first_message) = Some 0
   \<and> heap (snd (LoggerStream_ctor doc_env 0 Info after_first_message)) 0
       = \<lparr>str = ''03.08.2017 12:44:15.737 I [26629] : '',
          level = Info, space = True, quote = False\<rparr>
   \<and> pool (snd (LoggerStream_ctor doc_env 0 Info after_first_message)) 0 = []"
proof -
  let ?S = "snd (LoggerStream_ctor doc_env 0 Info after_first_message)"
  have p: "pool after_first_message 0 = [0]"
    by (simp add: after_first_message_eq)
  have h: "heap after_first_message 0
       = \<lparr>str = ''03.08.2017 12:44:15.737 W [26629] : '' @ [CHR 0x22, CHR ''x'', CHR 0x22],
          level = Warning, space = False, quote = True\<rparr>"
    by (simp add: after_first_message_eq)
  have f: "fst (LoggerStream_ctor doc_env 0 Info after_first_message) = Some 0"
    using ctor_after_first_message by (metis fst_conv)
  have t: "c_str (header_array after_first_message doc_env Info)
      = ''03.08.2017 12:44:15.737 I [26629] : ''"
    by (simp add: c_str_header_array header_text_doc)
       (simp add: after_first_message_eq init_state_def c_str_def)
  note r = buffer_reset [OF ctor_after_first_message, of Stream0]
  from r have "heap ?S 0 = \<lparr>str = ''03.08.2017 12:44:15.737 I [26629] : '',
          level = Info, space = True, quote = False\<rparr>"
    by (simp add: t)
  moreover from r p have "pool ?S 0 = []" by simp
  ultimately show ?thesis using p h f by blast
qed

end
